theory Spec2Isabelle
  imports Complex_Main "HOL-Library.Product_Lexorder"
begin

section \<open>Enumerations and request configuration\<close>

text \<open>
  The three string enumerations of \<^verbatim>\<open>enums.py\<close>, the granularity enumeration of
  \<^verbatim>\<open>_data_granularity.py\<close> and the configuration class of \<^verbatim>\<open>config.py\<close>. Each
  enumeration is a \<^verbatim>\<open>StrEnum\<close>: its members are used as strings when a path or a
  polars interval is built, so every datatype comes with the string value of its members.
\<close>

datatype BinanceDataInterval =
  ONE_SECOND | ONE_MINUTE | THREE_MINUTES | FIVE_MINUTES | FIFTEEN_MINUTES | THIRTY_MINUTES
  | ONE_HOUR | TWO_HOURS | FOUR_HOURS | SIX_HOURS | EIGHT_HOURS | TWELVE_HOURS
  | ONE_DAY | THREE_DAYS | ONE_WEEK | ONE_MONTH

fun interval_value :: "BinanceDataInterval \<Rightarrow> string" where
  "interval_value ONE_SECOND = ''1s''"
| "interval_value ONE_MINUTE = ''1m''"
| "interval_value THREE_MINUTES = ''3m''"
| "interval_value FIVE_MINUTES = ''5m''"
| "interval_value FIFTEEN_MINUTES = ''15m''"
| "interval_value THIRTY_MINUTES = ''30m''"
| "interval_value ONE_HOUR = ''1h''"
| "interval_value TWO_HOURS = ''2h''"
| "interval_value FOUR_HOURS = ''4h''"
| "interval_value SIX_HOURS = ''6h''"
| "interval_value EIGHT_HOURS = ''8h''"
| "interval_value TWELVE_HOURS = ''12h''"
| "interval_value ONE_DAY = ''1d''"
| "interval_value THREE_DAYS = ''3d''"
| "interval_value ONE_WEEK = ''1w''"
| "interval_value ONE_MONTH = ''1mo''"

datatype BinanceDataType = AGGREGATED_TRADES | OHLCV | TRADES

fun data_type_value :: "BinanceDataType \<Rightarrow> string" where
  "data_type_value AGGREGATED_TRADES = ''aggTrades''"
| "data_type_value OHLCV = ''klines''"
| "data_type_value TRADES = ''trades''"

datatype BinanceInstrumentType = FUTURES | OPTION | SPOT

fun instrument_type_value :: "BinanceInstrumentType \<Rightarrow> string" where
  "instrument_type_value FUTURES = ''futures''"
| "instrument_type_value OPTION = ''option''"
| "instrument_type_value SPOT = ''spot''"

datatype BinanceDataGranularity = DAILY | MONTHLY

fun granularity_value :: "BinanceDataGranularity \<Rightarrow> string" where
  "granularity_value DAILY = ''daily''"
| "granularity_value MONTHLY = ''monthly''"

record BinanceDataConfig =
  data_type :: BinanceDataType
  instrument_type :: BinanceInstrumentType
  interval :: BinanceDataInterval
  symbol :: string

section \<open>Errors\<close>

text \<open>
  The exceptions the loader can end with. \<open>TypeError\<close>, \<open>OverflowError\<close>, \<open>ValueError\<close>
  and \<open>ZeroDivisionError\<close> are the Python built-ins raised by \<^verbatim>\<open>datetime\<close> arithmetic
  and by float division; \<open>ArchiveError\<close> stands for whatever \<^verbatim>\<open>zipfile\<close> or
  \<^verbatim>\<open>polars.read_csv\<close> raise on an archive that exists and cannot be read;
  \<open>SchemaError\<close> is what polars raises for a join on keys of different types.
\<close>

datatype error =
  TypeError | OverflowError | ValueError | ZeroDivisionError | ArchiveError | SchemaError

section \<open>Dates and date-times\<close>

text \<open>
  \<^verbatim>\<open>datetime.date\<close> and \<^verbatim>\<open>datetime.datetime\<close> as records of their fields. The time
  zone of a date-time is either absent (a naive value) or \<^verbatim>\<open>datetime.UTC\<close>, the zone the
  loader is called with; zone databases are outside this development.
\<close>

record date =
  year :: nat
  month :: nat
  day :: nat

datatype tzinfo = UTC

record datetime = date +
  hour :: nat
  minute :: nat
  second :: nat
  microsecond :: nat
  tzinfo :: "tzinfo option"

definition MINYEAR :: nat where "MINYEAR = 1"
definition MAXYEAR :: nat where "MAXYEAR = 9999"

definition is_leap :: "nat \<Rightarrow> bool" where
  "is_leap y \<longleftrightarrow> y mod 4 = 0 \<and> (y mod 100 \<noteq> 0 \<or> y mod 400 = 0)"

definition days_in_month :: "nat \<Rightarrow> nat \<Rightarrow> nat" where
  "days_in_month y m =
     (if m = 2 then (if is_leap y then 29 else 28)
      else if m = 4 \<or> m = 6 \<or> m = 9 \<or> m = 11 then 30 else 31)"

definition days_before_year :: "nat \<Rightarrow> int" where
  "days_before_year y =
     (let z = int y - 1 in z * 365 + z div 4 - z div 100 + z div 400)"

definition DAYS_BEFORE_MONTH :: "int list" where
  "DAYS_BEFORE_MONTH = [- 1, 0, 31, 59, 90, 120, 151, 181, 212, 243, 273, 304, 334]"

definition days_before_month :: "nat \<Rightarrow> nat \<Rightarrow> int" where
  "days_before_month y m =
     DAYS_BEFORE_MONTH ! m + (if 2 < m \<and> is_leap y then 1 else 0)"

text \<open>\<^verbatim>\<open>date.toordinal()\<close>: the day number, 0001-01-01 being day 1.\<close>

definition toordinal :: "'a date_scheme \<Rightarrow> int" where
  "toordinal d = days_before_year (year d) + days_before_month (year d) (month d) + int (day d)"

text \<open>The values the constructors of \<^verbatim>\<open>date\<close> and \<^verbatim>\<open>datetime\<close> accept.\<close>

definition valid_date :: "'a date_scheme \<Rightarrow> bool" where
  "valid_date d \<longleftrightarrow>
     MINYEAR \<le> year d \<and> year d \<le> MAXYEAR \<and> 1 \<le> month d \<and> month d \<le> 12
     \<and> 1 \<le> day d \<and> day d \<le> days_in_month (year d) (month d)"

definition valid_datetime :: "datetime \<Rightarrow> bool" where
  "valid_datetime t \<longleftrightarrow>
     valid_date t \<and> hour t < 24 \<and> minute t < 60 \<and> second t < 60 \<and> microsecond t < 1000000"

text \<open>\<^verbatim>\<open>datetime.date()\<close>.\<close>

definition dt_date :: "datetime \<Rightarrow> date" where
  "dt_date t = \<lparr>year = year t, month = month t, day = day t\<rparr>"

text \<open>
  \<^verbatim>\<open>datetime.datetime(year, month, day, tzinfo=tz)\<close>: the constructor checks its fields
  and raises \<^verbatim>\<open>ValueError\<close> when they name no calendar day; the time of day is midnight.
\<close>

definition mk_datetime :: "nat \<Rightarrow> nat \<Rightarrow> nat \<Rightarrow> tzinfo option \<Rightarrow> error + datetime" where
  "mk_datetime y m d tz =
     (let t = \<lparr>year = y, month = m, day = d, hour = 0, minute = 0, second = 0,
                microsecond = 0, tzinfo = tz\<rparr>
      in if valid_datetime t then Inr t else Inl ValueError)"

text \<open>
  \<^verbatim>\<open>date + relativedelta(days=1)\<close>: \<^verbatim>\<open>dateutil\<close> adds \<^verbatim>\<open>timedelta(days=1)\<close>, and
  \<^verbatim>\<open>date.__add__\<close> raises \<^verbatim>\<open>OverflowError\<close> when the ordinal leaves the range of the
  type, that is after 9999-12-31.
\<close>

definition date_add_day :: "date \<Rightarrow> error + date" where
  "date_add_day d =
     (if day d < days_in_month (year d) (month d) then Inr (d\<lparr>day := day d + 1\<rparr>)
      else if month d < 12 then Inr \<lparr>year = year d, month = month d + 1, day = 1\<rparr>
      else if year d < MAXYEAR then Inr \<lparr>year = year d + 1, month = 1, day = 1\<rparr>
      else Inl OverflowError)"

text \<open>
  \<^verbatim>\<open>date + relativedelta(months=1)\<close>: the month is advanced, the year with it past
  December, the day is clipped to the length of the new month, and \<^verbatim>\<open>date.replace\<close>
  raises \<^verbatim>\<open>ValueError\<close> for a year after 9999.
\<close>

definition date_add_month :: "date \<Rightarrow> error + date" where
  "date_add_month d =
     (let m1 = month d + 1;
          y = (if 12 < m1 then year d + 1 else year d);
          m = (if 12 < m1 then m1 - 12 else m1);
          r = \<lparr>year = y, month = m, day = min (days_in_month y m) (day d)\<rparr>
      in if valid_date r then Inr r else Inl ValueError)"

text \<open>
  Comparison and subtraction of two date-times. Python compares the field tuples of two
  values of the same kind and raises \<^verbatim>\<open>TypeError\<close> when one is naive and the other
  aware; the difference is a \<^verbatim>\<open>timedelta\<close>, here its length in microseconds.
\<close>

definition dt_tuple :: "datetime \<Rightarrow> nat \<times> nat \<times> nat \<times> nat \<times> nat \<times> nat \<times> nat" where
  "dt_tuple t = (year t, month t, day t, hour t, minute t, second t, microsecond t)"

definition dt_lt :: "datetime \<Rightarrow> datetime \<Rightarrow> error + bool" where
  "dt_lt a b = (if tzinfo a = tzinfo b then Inr (dt_tuple a < dt_tuple b) else Inl TypeError)"

definition dt_micros :: "datetime \<Rightarrow> int" where
  "dt_micros t =
     (toordinal t * 86400 + (int (second t) + int (minute t) * 60 + int (hour t) * 3600))
       * 1000000 + int (microsecond t)"

definition dt_sub :: "datetime \<Rightarrow> datetime \<Rightarrow> error + int" where
  "dt_sub a b = (if tzinfo a = tzinfo b then Inr (dt_micros a - dt_micros b) else Inl TypeError)"

definition total_seconds :: "int \<Rightarrow> real" where
  "total_seconds td = real_of_int td / 1000000"

definition truediv :: "real \<Rightarrow> real \<Rightarrow> error + real" where
  "truediv a b = (if b = 0 then Inl ZeroDivisionError else Inr (a / b))"

section \<open>Granularity calendar\<close>

fun next_chunk :: "BinanceDataGranularity \<Rightarrow> datetime \<Rightarrow> error + datetime" where
  "next_chunk DAILY date_time =
     (case date_add_day (dt_date date_time) of
        Inl e \<Rightarrow> Inl e
      | Inr next_day \<Rightarrow>
          mk_datetime (year next_day) (month next_day) (day next_day) (tzinfo date_time))"
| "next_chunk MONTHLY date_time =
     (case date_add_month (dt_date date_time) of
        Inl e \<Rightarrow> Inl e
      | Inr next_month \<Rightarrow>
          mk_datetime (year next_month) (month next_month) 1 (tzinfo date_time))"

text \<open>Decimal digits of a number, and the format specification \<^verbatim>\<open>02d\<close>.\<close>

fun str_nat :: "nat \<Rightarrow> string" where
  "str_nat n =
     (if n < 10 then [''0123456789'' ! n] else str_nat (n div 10) @ [''0123456789'' ! (n mod 10)])"

definition format_02d :: "nat \<Rightarrow> string" where
  "format_02d n = replicate (2 - length (str_nat n)) CHR ''0'' @ str_nat n"

fun file_date :: "BinanceDataGranularity \<Rightarrow> date \<Rightarrow> string" where
  "file_date DAILY d =
     format_02d (year d) @ ''-'' @ format_02d (month d) @ ''-'' @ format_02d (day d)"
| "file_date MONTHLY d = format_02d (year d) @ ''-'' @ format_02d (month d)"

section \<open>Calendar arithmetic\<close>

text \<open>
  The day number grows with the calendar: a year adds 365 or 366 days, a month its own
  length. These facts carry the termination of the loader's loop and every comparison
  of two instants below.
\<close>


lemma div_step: 
  assumes "0 < (k::int)"
  shows "(z + 1) div k = z div k + (if (z + 1) mod k = 0 then 1 else 0)"
proof (cases "(z + 1) mod k = 0")
  case True
  then obtain q where q: "z + 1 = k * q" by (auto simp: mod_eq_0_iff_dvd)
  define p where "p = q - 1"
  have z: "z = (k - 1) + p * k" using q by (simp add: p_def algebra_simps)
  have "z div k = (k - 1) div k + p"
    unfolding z using assms by (simp only: div_mult_self1 less_irrefl not_False_eq_True)
  then have "z div k = q - 1" using assms by (simp add: div_pos_pos_trivial p_def)
  moreover have "(z + 1) div k = q" using assms q by simp
  ultimately show ?thesis using True by simp
next
  case False
  define r where "r = z mod k"
  define d where "d = z div k"
  have r: "0 \<le> r" "r < k" using assms by (simp_all add: r_def)
  have z: "k * d + r = z" by (simp add: r_def d_def)
  have "r + 1 \<noteq> k"
  proof
    assume "r + 1 = k"
    then have "z + 1 = k * (d + 1)" using z by (simp add: algebra_simps)
    then have "(z + 1) mod k = 0" by simp
    with False show False by simp
  qed
  with r have r1: "0 \<le> r + 1" "r + 1 < k" by simp_all
  have "z + 1 = (r + 1) + d * k" using z by (simp add: algebra_simps)
  then have "(z + 1) div k = (r + 1) div k + d"
    using assms by (simp only: div_mult_self1 less_irrefl not_False_eq_True)
  then have "(z + 1) div k = z div k" using r1 by (simp add: div_pos_pos_trivial d_def)
  then show ?thesis using False by simp
qed

lemma mod_400_100: "(x::int) mod 400 = 0 \<Longrightarrow> x mod 100 = 0"
proof -
  assume "x mod 400 = 0"
  then have "400 dvd x" by (simp add: mod_eq_0_iff_dvd)
  moreover have "(100::int) dvd 400" by simp
  ultimately have "100 dvd x" by (rule dvd_trans [rotated])
  then show ?thesis by (simp add: mod_eq_0_iff_dvd)
qed

lemma mod_100_4: "(x::int) mod 100 = 0 \<Longrightarrow> x mod 4 = 0"
proof -
  assume "x mod 100 = 0"
  then have "100 dvd x" by (simp add: mod_eq_0_iff_dvd)
  moreover have "(4::int) dvd 100" by simp
  ultimately have "4 dvd x" by (rule dvd_trans [rotated])
  then show ?thesis by (simp add: mod_eq_0_iff_dvd)
qed

lemma year_step_int:
  "((z::int) + 1) * 365 + (z + 1) div 4 - (z + 1) div 100 + (z + 1) div 400 =
   z * 365 + z div 4 - z div 100 + z div 400 +
     (if (z + 1) mod 4 = 0 \<and> ((z + 1) mod 100 \<noteq> 0 \<or> (z + 1) mod 400 = 0) then 366 else 365)"
proof -
  have d4: "(z + 1) div 4 = z div 4 + (if (z + 1) mod 4 = 0 then 1 else 0)"
    by (rule div_step) simp
  have d100: "(z + 1) div 100 = z div 100 + (if (z + 1) mod 100 = 0 then 1 else 0)"
    by (rule div_step) simp
  have d400: "(z + 1) div 400 = z div 400 + (if (z + 1) mod 400 = 0 then 1 else 0)"
    by (rule div_step) simp
  show ?thesis
    unfolding d4 d100 d400
    using mod_400_100 [of "z + 1"] mod_100_4 [of "z + 1"]
    by (cases "(z + 1) mod 4 = 0"; cases "(z + 1) mod 100 = 0"; cases "(z + 1) mod 400 = 0")
       (simp_all add: algebra_simps)
qed

lemma is_leap_int [code]:
  "is_leap y \<longleftrightarrow> int y mod 4 = 0 \<and> (int y mod 100 \<noteq> 0 \<or> int y mod 400 = 0)"
proof -
  have "\<And>k. (int y mod int k = 0) = (y mod k = 0)"
    by (simp only: of_nat_mod [symmetric] of_nat_eq_0_iff)
  from this [of 4] this [of 100] this [of 400] show ?thesis
    by (simp add: is_leap_def)
qed

definition year_days :: "nat \<Rightarrow> int" where
  "year_days y = (if is_leap y then 366 else 365)"

lemma days_before_year_Suc: "days_before_year (Suc y) = days_before_year y + year_days y"
proof -
  define z where "z = int y - 1"
  have y: "int y = z + 1" by (simp add: z_def)
  have s: "int (Suc y) - 1 = z + 1" by (simp add: z_def)
  have a: "days_before_year (Suc y) = (z + 1) * 365 + (z + 1) div 4 - (z + 1) div 100 + (z + 1) div 400"
    unfolding days_before_year_def Let_def s ..
  have b: "days_before_year y = z * 365 + z div 4 - z div 100 + z div 400"
    unfolding days_before_year_def Let_def z_def ..
  show ?thesis
    unfolding a b year_days_def is_leap_int y by (rule year_step_int)
qed

lemma year_days_bounds: "365 \<le> year_days y" "year_days y \<le> 366"
  by (simp_all add: year_days_def)

lemma days_before_year_mono: "y \<le> y' \<Longrightarrow> days_before_year y \<le> days_before_year y'"
proof (induction y' )
  case 0 then show ?case by simp
next
  case (Suc y')
  then show ?case using year_days_bounds(1) [of y']
    by (cases "y = Suc y'") (simp_all add: days_before_year_Suc)
qed

lemma days_before_year_less:
  assumes "y < y'" shows "days_before_year y + year_days y \<le> days_before_year y'"
proof -
  have "days_before_year (Suc y) \<le> days_before_year y'"
    using assms by (intro days_before_year_mono) simp
  then show ?thesis by (simp add: days_before_year_Suc)
qed

lemma days_before_month_Suc:
  assumes "1 \<le> m" "m < 12"
  shows "days_before_month y (Suc m) = days_before_month y m + int (days_in_month y m)"
proof -
  have "m = 1 \<or> m = 2 \<or> m = 3 \<or> m = 4 \<or> m = 5 \<or> m = 6 \<or> m = 7 \<or> m = 8 \<or> m = 9
         \<or> m = 10 \<or> m = 11" using assms by arith
  then show ?thesis
    by (elim disjE) (simp_all add: days_before_month_def days_in_month_def DAYS_BEFORE_MONTH_def eval_nat_numeral)
qed

lemma days_before_month_first: "days_before_month y (Suc 0) = 0"
  by (simp add: days_before_month_def DAYS_BEFORE_MONTH_def)

lemma less_pair_iff:
  "(a, b) < (c, d) \<longleftrightarrow> a < c \<or> a = c \<and> b < d" for a c :: nat
  by auto

lemma days_before_month_last:
  "days_before_month y 12 + int (days_in_month y 12) = year_days y"
  by (simp add: days_before_month_def days_in_month_def DAYS_BEFORE_MONTH_def year_days_def)

lemma days_in_month_pos: "28 \<le> days_in_month y m" "days_in_month y m \<le> 31"
  by (simp_all add: days_in_month_def)


lemma days_before_month_mono:
  assumes "1 \<le> m" "m < m'" "m' \<le> 12"
  shows "days_before_month y m + int (days_in_month y m) \<le> days_before_month y m'"
  using assms(2,3)
proof (induction m')
  case 0 then show ?case by simp
next
  case (Suc k)
  show ?case
  proof (cases "m = k")
    case True
    then show ?thesis using assms(1) Suc.prems by (simp add: days_before_month_Suc)
  next
    case False
    then have "m < k" "k \<le> 12" "1 \<le> k" "k < 12" using Suc.prems assms(1) by simp_all
    then show ?thesis using Suc.IH by (simp add: days_before_month_Suc)
  qed
qed

lemma days_before_month_nonneg:
  assumes "1 \<le> m" "m \<le> 12" shows "0 \<le> days_before_month y m"
proof (cases "m = 1")
  case True then show ?thesis by (simp add: days_before_month_first)
next
  case False
  then have "1 < m" using assms by simp
  from days_before_month_mono [OF _ this assms(2), of y] show ?thesis
    by (simp add: days_before_month_first)
qed

lemma days_before_month_upper:
  assumes "1 \<le> m" "m \<le> 12"
  shows "days_before_month y m + int (days_in_month y m) \<le> year_days y"
proof (cases "m = 12")
  case True then show ?thesis by (simp add: days_before_month_last)
next
  case False
  then have "m < 12" using assms by simp
  from days_before_month_mono [OF assms(1) this, of y] days_before_month_last [of y]
  show ?thesis by simp
qed

text \<open>
  The part of validity the calendar facts need: a month and a day that exist, and a time
  of day, whatever the year.
\<close>

definition calendar_day :: "'a date_scheme \<Rightarrow> bool" where
  "calendar_day d \<longleftrightarrow>
     1 \<le> month d \<and> month d \<le> 12 \<and> 1 \<le> day d \<and> day d \<le> days_in_month (year d) (month d)"

definition wall_clock :: "datetime \<Rightarrow> bool" where
  "wall_clock t \<longleftrightarrow>
     calendar_day t \<and> hour t < 24 \<and> minute t < 60 \<and> second t < 60 \<and> microsecond t < 1000000"

lemma valid_datetime_int [code]:
  "valid_datetime t \<longleftrightarrow>
     valid_date t \<and> int (hour t) < 24 \<and> int (minute t) < 60 \<and> int (second t) < 60
     \<and> int (microsecond t) < 1000000"
  by (simp add: valid_datetime_def)

lemma valid_date_calendar_day: "valid_date d \<Longrightarrow> calendar_day d"
  by (simp add: valid_date_def calendar_day_def)

lemma valid_datetime_wall_clock: "valid_datetime t \<Longrightarrow> wall_clock t"
  by (simp add: valid_datetime_def wall_clock_def valid_date_calendar_day)

lemma toordinal_less:
  assumes a: "calendar_day a" and b: "calendar_day b"
    and lt: "(year a, month a, day a) < (year b, month b, day b)"
  shows "toordinal a < toordinal b"
proof -
  have ma: "1 \<le> month a" "month a \<le> 12" "day a \<le> days_in_month (year a) (month a)"
    using a by (simp_all add: calendar_day_def)
  have mb: "1 \<le> month b" "month b \<le> 12" "1 \<le> day b"
    using b by (simp_all add: calendar_day_def)
  consider (y) "year a < year b"
    | (m) "year a = year b" "month a < month b"
    | (d) "year a = year b" "month a = month b" "day a < day b"
    using lt unfolding less_pair_iff by blast
  then show ?thesis
  proof cases
    case y
    have "toordinal a \<le> days_before_year (year a) + year_days (year a)"
      using days_before_month_upper [OF ma(1,2), of "year a"] ma(3)
      by (simp add: toordinal_def)
    also have "\<dots> \<le> days_before_year (year b)"
      by (rule days_before_year_less [OF y])
    also have "\<dots> < toordinal b"
      using days_before_month_nonneg [OF mb(1,2), of "year b"] mb(3)
      by (simp add: toordinal_def)
    finally show ?thesis .
  next
    case m
    from days_before_month_mono [OF ma(1) m(2) mb(2), of "year a"] ma(3) mb(3) m(1)
    show ?thesis by (simp add: toordinal_def)
  next
    case d
    then show ?thesis by (simp add: toordinal_def)
  qed
qed

lemma dt_micros_less:
  assumes a: "wall_clock a" and b: "wall_clock b"
    and lt: "dt_tuple a < dt_tuple b"
  shows "dt_micros a < dt_micros b"
proof -
  have ta: "hour a < 24" "minute a < 60" "second a < 60" "microsecond a < 1000000"
    and da: "calendar_day a"
    using a by (simp_all add: wall_clock_def)
  have tb: "hour b < 24" "minute b < 60" "second b < 60" "microsecond b < 1000000"
    and db: "calendar_day b"
    using b by (simp_all add: wall_clock_def)
  consider (date) "(year a, month a, day a) < (year b, month b, day b)"
    | (time) "year a = year b" "month a = month b" "day a = day b"
        "(hour a, minute a, second a, microsecond a) < (hour b, minute b, second b, microsecond b)"
    using lt unfolding dt_tuple_def less_pair_iff by blast
  then show ?thesis
  proof cases
    case date
    from toordinal_less [OF da db date] have "toordinal a + 1 \<le> toordinal b" by simp
    then show ?thesis using ta tb by (simp add: dt_micros_def)
  next
    case time
    then have "toordinal a = toordinal b" by (simp add: toordinal_def)
    moreover have "hour a < hour b \<or> hour a = hour b \<and> (minute a < minute b
        \<or> minute a = minute b \<and> (second a < second b
        \<or> second a = second b \<and> microsecond a < microsecond b))"
      using time(4) unfolding less_pair_iff .
    ultimately show ?thesis using ta tb by (auto simp: dt_micros_def)
  qed
qed

section \<open>Candle rows and the archive store\<close>

text \<open>
  A row of the schema \<^verbatim>\<open>BinanceOHLCV\<close>. Every column is nullable. The price and
  volume columns are \<^verbatim>\<open>Float64\<close>; the loader only moves, compares and coalesces their
  values, so their type is a parameter. A \<^verbatim>\<open>Datetime\<close> value is held as microseconds
  since the epoch, the resolution the schema declares.
\<close>

record 'v binance_ohlcv =
  date_time :: "int option"
  open_v :: "'v option"
  high :: "'v option"
  low :: "'v option"
  close :: "'v option"
  volume :: "'v option"
  close_date_time :: "int option"
  quote_volume :: "'v option"
  trades_count :: "int option"
  taker_buy_base_volume :: "'v option"
  taker_buy_quote_volume :: "'v option"

text \<open>
  A row as \<^verbatim>\<open>read_csv\<close> delivers it under \<^verbatim>\<open>raw_schema\<close>: the two time columns hold
  the vendor's epoch integers and a twelfth column \<^verbatim>\<open>ignore\<close> follows.
\<close>

record 'v raw_ohlcv = "'v binance_ohlcv" +
  ignore :: "int option"

text \<open>
  What lies at a path under the root directory: nothing, or a file that either reads as
  rows or makes \<^verbatim>\<open>ZipFile\<close> or \<^verbatim>\<open>read_csv\<close> raise. A path is the list of its
  components below the root.
\<close>

datatype 'v archive = Unreadable | Csv "'v raw_ohlcv list"

type_synonym 'v store = "string list \<Rightarrow> 'v archive option"

datatype time_unit = Us | Ms

text \<open>\<^verbatim>\<open>polars.from_epoch(column, time_unit)\<close> as a function of the row.\<close>

definition from_epoch :: "('r \<Rightarrow> int option) \<Rightarrow> time_unit \<Rightarrow> 'r \<Rightarrow> int option" where
  "from_epoch column u row =
     (case column row of
        None \<Rightarrow> None
      | Some x \<Rightarrow> Some (case u of Us \<Rightarrow> x | Ms \<Rightarrow> x * 1000))"

definition date_tuple :: "date \<Rightarrow> nat \<times> nat \<times> nat" where
  "date_tuple d = (year d, month d, day d)"

definition priv_from_unix ::
  "BinanceDataConfig \<Rightarrow> ('r \<Rightarrow> int option) \<Rightarrow> date \<Rightarrow> 'r \<Rightarrow> int option" where
  "priv_from_unix config unix_column d =
     (if instrument_type config = SPOT \<and> date_tuple d \<ge> (2025, 1, 1)
      then from_epoch unix_column Us
      else from_epoch unix_column Ms)"

definition priv_find_file_path ::
  "'v store \<Rightarrow> BinanceDataConfig \<Rightarrow> date \<Rightarrow> BinanceDataGranularity \<Rightarrow> string list option" where
  "priv_find_file_path root_dir config d granularity =
     (let file_name = symbol config @ ''-'' @ interval_value (interval config) @ ''-''
                        @ file_date granularity d @ ''.zip'';
          folder = [instrument_type_value (instrument_type config),
                    granularity_value granularity,
                    data_type_value (data_type config),
                    symbol config,
                    interval_value (interval config)];
          path = folder @ [file_name]
      in if root_dir path \<noteq> None then Some path else None)"

definition priv_load_ohlcv_file ::
  "'v store \<Rightarrow> BinanceDataConfig \<Rightarrow> date \<Rightarrow> BinanceDataGranularity
     \<Rightarrow> error + 'v binance_ohlcv list option" where
  "priv_load_ohlcv_file root_dir config d granularity =
     (case priv_find_file_path root_dir config d granularity of
        None \<Rightarrow> Inr None
      | Some path \<Rightarrow>
          (case root_dir path of
             Some (Csv raw_data) \<Rightarrow>
               Inr (Some (map (\<lambda>row. binance_ohlcv.truncate
                                 (row\<lparr>date_time := priv_from_unix config date_time d row,
                                      close_date_time := priv_from_unix config close_date_time d row\<rparr>))
                              raw_data))
           | _ \<Rightarrow> Inl ArchiveError))"

text \<open>
  The loop of \<^verbatim>\<open>_load_ohlcv\<close>. Its state is the list of chunks read so far and, for the
  record, the dates \<^verbatim>\<open>_load_ohlcv_file\<close> was called with. The progress bar is a
  display; its update is kept for the division it performs.
\<close>

function priv_load_ohlcv_loop ::
  "'v store \<Rightarrow> BinanceDataConfig \<Rightarrow> datetime \<Rightarrow> datetime \<Rightarrow> BinanceDataGranularity \<Rightarrow> real
     \<Rightarrow> datetime \<Rightarrow> 'v binance_ohlcv list list \<times> date list
     \<Rightarrow> error + 'v binance_ohlcv list list \<times> date list" where
  "priv_load_ohlcv_loop root_dir config start stop granularity interval_seconds chunk_date_time
       (chunks, fetched) =
     (case dt_lt chunk_date_time stop of
        Inl e \<Rightarrow> Inl e
      | Inr continue \<Rightarrow>
          if \<not> continue then Inr (chunks, fetched)
          else
            (case priv_load_ohlcv_file root_dir config (dt_date chunk_date_time) granularity of
               Inl e \<Rightarrow> Inl e
             | Inr chunk \<Rightarrow>
                 (case next_chunk granularity chunk_date_time of
                    Inl e \<Rightarrow> Inl e
                  | Inr next_date_time \<Rightarrow>
                      (case dt_sub next_date_time start of
                         Inl e \<Rightarrow> Inl e
                       | Inr loaded \<Rightarrow>
                           (case truediv (total_seconds loaded) interval_seconds of
                              Inl e \<Rightarrow> Inl e
                            | Inr completed \<Rightarrow>
                                priv_load_ohlcv_loop root_dir config start stop granularity
                                  interval_seconds next_date_time
                                  ((case chunk of None \<Rightarrow> chunks | Some c \<Rightarrow> chunks @ [c]),
                                   fetched @ [dt_date chunk_date_time]))))))"
  by pat_completeness auto

lemma next_chunk_valid: "next_chunk g t = Inr n \<Longrightarrow> valid_datetime n"
  by (cases g) (auto simp: mk_datetime_def Let_def split: sum.splits if_splits)

lemma date_add_day_greater:
  "date_add_day d = Inr n \<Longrightarrow> (year d, month d, day d) < (year n, month n, day n)"
  by (auto simp: date_add_day_def less_pair_iff split: if_splits)

lemma date_add_month_greater:
  "date_add_month d = Inr n \<Longrightarrow> (year d, month d) < (year n, month n)"
  by (auto simp: date_add_month_def Let_def less_pair_iff split: if_splits)

lemma next_chunk_tuple_less:
  assumes "next_chunk g t = Inr n"
  shows "dt_tuple t < dt_tuple n"
proof (cases g)
  case DAILY
  with assms obtain d where d: "date_add_day (dt_date t) = Inr d"
    and n: "mk_datetime (year d) (month d) (day d) (tzinfo t) = Inr n"
    by (auto split: sum.splits)
  from date_add_day_greater [OF d] have "(year t, month t, day t) < (year d, month d, day d)"
    by (simp add: dt_date_def)
  moreover from n have "year n = year d" "month n = month d" "day n = day d"
    by (auto simp: mk_datetime_def Let_def split: if_splits)
  ultimately show ?thesis
    unfolding dt_tuple_def less_pair_iff by auto
next
  case MONTHLY
  with assms obtain d where d: "date_add_month (dt_date t) = Inr d"
    and n: "mk_datetime (year d) (month d) 1 (tzinfo t) = Inr n"
    by (auto split: sum.splits)
  from date_add_month_greater [OF d] have "(year t, month t) < (year d, month d)"
    by (simp add: dt_date_def)
  moreover from n have "year n = year d" "month n = month d"
    by (auto simp: mk_datetime_def Let_def split: if_splits)
  ultimately show ?thesis
    unfolding dt_tuple_def less_pair_iff by auto
qed

lemma next_chunk_micros_less:
  "valid_datetime t \<Longrightarrow> next_chunk g t = Inr n \<Longrightarrow> dt_micros t < dt_micros n"
  by (rule dt_micros_less)
     (auto intro: valid_datetime_wall_clock next_chunk_valid next_chunk_tuple_less)

definition year_end_micros :: "datetime \<Rightarrow> int" where
  "year_end_micros t = (days_before_year (Suc (year t)) + 1) * 86400000000"

lemma dt_micros_bound:
  assumes v: "valid_datetime t" and lt: "dt_lt t stop = Inr True"
  shows "dt_micros t < year_end_micros stop"
proof -
  have d: "valid_date t" and tm: "hour t < 24" "minute t < 60" "second t < 60"
      "microsecond t < 1000000"
    using v by (simp_all add: valid_datetime_def)
  have m: "1 \<le> month t" "month t \<le> 12" "day t \<le> days_in_month (year t) (month t)"
    using d by (simp_all add: valid_date_def)
  from lt have "dt_tuple t < dt_tuple stop" by (simp add: dt_lt_def split: if_splits)
  then have "year t \<le> year stop" unfolding dt_tuple_def less_pair_iff by auto
  then have "days_before_year (Suc (year t)) \<le> days_before_year (Suc (year stop))"
    by (intro days_before_year_mono) simp
  moreover have "toordinal t \<le> days_before_year (Suc (year t))"
    using days_before_month_upper [OF m(1,2), of "year t"] m(3)
    by (simp add: toordinal_def days_before_year_Suc)
  ultimately have "toordinal t \<le> days_before_year (Suc (year stop))" by simp
  then show ?thesis using tm by (simp add: dt_micros_def year_end_micros_def)
qed

termination priv_load_ohlcv_loop
proof (relation "measures
    [\<lambda>(root_dir, config, start, stop, granularity, interval_seconds, t, st).
        if valid_datetime t then 0 else 1,
     \<lambda>(root_dir, config, start, stop, granularity, interval_seconds, t, st).
        nat (year_end_micros stop - dt_micros t)]", goal_cases)
  case 1
  show ?case by simp
next
  case (2 root_dir config start stop granularity interval_seconds t chunks fetched continue chunk n
      loaded completed)
  then have lt: "dt_lt t stop = Inr True" and n: "next_chunk granularity t = Inr n" by simp_all
  have vn: "valid_datetime n" by (rule next_chunk_valid [OF n])
  show ?case
  proof (cases "valid_datetime t")
    case False
    then show ?thesis using vn by simp
  next
    case True
    from next_chunk_micros_less [OF True n] dt_micros_bound [OF True lt]
    show ?thesis using True vn by simp
  qed
qed

declare priv_load_ohlcv_loop.simps [simp del]

definition priv_load_ohlcv ::
  "'v store \<Rightarrow> BinanceDataConfig \<Rightarrow> datetime \<Rightarrow> datetime \<Rightarrow> BinanceDataGranularity
     \<Rightarrow> error + 'v binance_ohlcv list \<times> date list" where
  "priv_load_ohlcv root_dir config start stop granularity =
     (case dt_sub stop start of
        Inl e \<Rightarrow> Inl e
      | Inr delta \<Rightarrow>
          (case priv_load_ohlcv_loop root_dir config start stop granularity (total_seconds delta)
                  start ([], []) of
             Inl e \<Rightarrow> Inl e
           | Inr (chunks, fetched) \<Rightarrow>
               if length chunks = 0 then Inr ([], fetched) else Inr (concat chunks, fetched)))"


section \<open>Timeline, join and coalesce\<close>

text \<open>
  The value \<^verbatim>\<open>polars.lit\<close> holds for a date-time: microseconds since 1970-01-01T00:00,
  day 719163.
\<close>

definition epoch_micros :: "datetime \<Rightarrow> int" where
  "epoch_micros t = dt_micros t - 719163 * 86400000000"

text \<open>
  The length of a sampling interval in microseconds, where polars takes the interval
  string for a fixed duration; \<^verbatim>\<open>1mo\<close> is a calendar month and has none.
\<close>

fun interval_micros :: "BinanceDataInterval \<Rightarrow> int option" where
  "interval_micros ONE_SECOND = Some 1000000"
| "interval_micros ONE_MINUTE = Some 60000000"
| "interval_micros THREE_MINUTES = Some 180000000"
| "interval_micros FIVE_MINUTES = Some 300000000"
| "interval_micros FIFTEEN_MINUTES = Some 900000000"
| "interval_micros THIRTY_MINUTES = Some 1800000000"
| "interval_micros ONE_HOUR = Some 3600000000"
| "interval_micros TWO_HOURS = Some 7200000000"
| "interval_micros FOUR_HOURS = Some 14400000000"
| "interval_micros SIX_HOURS = Some 21600000000"
| "interval_micros EIGHT_HOURS = Some 28800000000"
| "interval_micros TWELVE_HOURS = Some 43200000000"
| "interval_micros ONE_DAY = Some 86400000000"
| "interval_micros THREE_DAYS = Some 259200000000"
| "interval_micros ONE_WEEK = Some 604800000000"
| "interval_micros ONE_MONTH = None"

text \<open>The ticks of a fixed step: every \<open>start + k * step\<close> below \<open>stop\<close>.\<close>

function range_step :: "int \<Rightarrow> int \<Rightarrow> int \<Rightarrow> int list" where
  "range_step s e step = (if s < e \<and> 0 < step then s # range_step (s + step) e step else [])"
  by pat_completeness auto
termination
  by (relation "measure (\<lambda>(s, e, step). nat (e - s))") auto

declare range_step.simps [simp del]

text \<open>
  The ticks of a calendar month: the start moved by \<open>i\<close> months, the day clipped to the
  length of the month reached, for \<open>i = 0, 1, \<dots>\<close> while the tick is below \<open>stop\<close>.
\<close>

definition add_months :: "datetime \<Rightarrow> nat \<Rightarrow> datetime" where
  "add_months t n =
     (let y0 = year t + n div 12;
          m0 = month t + n mod 12;
          y = (if 12 < m0 then y0 + 1 else y0);
          m = (if 12 < m0 then m0 - 12 else m0)
      in t\<lparr>year := y, month := m, day := min (day t) (days_in_month y m)\<rparr>)"

lemma add_months_wall_clock: "wall_clock t \<Longrightarrow> wall_clock (add_months t n)"
  using days_in_month_pos(1)
  by (auto simp: wall_clock_def calendar_day_def add_months_def Let_def min_def
      intro: order_trans [OF _ days_in_month_pos(1)])

lemma add_months_less:
  assumes "wall_clock t" "i < j"
  shows "dt_tuple (add_months t i) < dt_tuple (add_months t j)"
proof -
  have m: "1 \<le> month t" "month t \<le> 12" using assms(1) by (simp_all add: wall_clock_def calendar_day_def)
  define a where "a = add_months t i"
  define b where "b = add_months t j"
  have ia: "12 * year a + month a = 12 * year t + month t + i"
    unfolding a_def add_months_def Let_def by auto
  have ib: "12 * year b + month b = 12 * year t + month t + j"
    unfolding b_def add_months_def Let_def by auto
  have ra: "1 \<le> month a" "month a \<le> 12" using add_months_wall_clock [OF assms(1), of i]
    by (simp_all add: a_def wall_clock_def calendar_day_def)
  have rb: "1 \<le> month b" "month b \<le> 12" using add_months_wall_clock [OF assms(1), of j]
    by (simp_all add: b_def wall_clock_def calendar_day_def)
  from ia ib assms(2) have "12 * year a + month a < 12 * year b + month b" by simp
  with ra rb have "year a < year b \<or> year a = year b \<and> month a < month b" by arith
  then show ?thesis unfolding a_def [symmetric] b_def [symmetric] dt_tuple_def less_pair_iff by auto
qed

lemma add_months_micros_less:
  "wall_clock t \<Longrightarrow> i < j \<Longrightarrow> epoch_micros (add_months t i) < epoch_micros (add_months t j)"
  unfolding epoch_micros_def
  using dt_micros_less [OF add_months_wall_clock add_months_wall_clock add_months_less] by simp

function month_range :: "datetime \<Rightarrow> int \<Rightarrow> nat \<Rightarrow> int list" where
  "month_range start e i =
     (if valid_datetime start \<and> epoch_micros (add_months start i) < e
      then epoch_micros (add_months start i) # month_range start e (Suc i)
      else [])"
  by pat_completeness auto
termination
proof (relation "measure (\<lambda>(start, e, i). nat (e - epoch_micros (add_months start i)))", goal_cases)
  case 1
  show ?case by simp
next
  case (2 start e i)
  then have "wall_clock start" by (simp add: valid_datetime_wall_clock)
  from add_months_micros_less [OF this, of i "Suc i"] 2 show ?case by simp
qed

declare month_range.simps [simp del]

text \<open>
  \<^verbatim>\<open>datetime_range(start, end, interval, closed="left")\<close>. The range is empty when the
  end lies before the start. Both values are of one kind, naive or aware, wherever
  \<^verbatim>\<open>load_ohlcv\<close> reaches this point.
\<close>

definition datetime_range :: "datetime \<Rightarrow> datetime \<Rightarrow> BinanceDataInterval \<Rightarrow> int list" where
  "datetime_range start stop every =
     (if epoch_micros stop < epoch_micros start then []
      else (case interval_micros every of
              Some step \<Rightarrow> range_step (epoch_micros start) (epoch_micros stop) step
            | None \<Rightarrow> month_range start (epoch_micros stop) 0))"

text \<open>
  A row of \<^verbatim>\<open>filled_data\<close>: the six columns of the timeline frame, then the columns
  the two joins add. A left join adds the columns of the right frame, null in all of them
  where no right row matched; \<open>daily\<close> and \<open>monthly\<close> hold the matched row, \<open>None\<close>
  for the all-null case.
\<close>

record 'v filled_row =
  f_date_time :: int
  f_open :: "'v option"
  f_high :: "'v option"
  f_low :: "'v option"
  f_close :: "'v option"
  f_volume :: "'v option"
  daily :: "'v binance_ohlcv option"
  monthly :: "'v binance_ohlcv option"

text \<open>A column of a joined frame, read through the matched row.\<close>

definition col :: "('r \<Rightarrow> 'a option) \<Rightarrow> 'r option \<Rightarrow> 'a option" where
  "col f r = (case r of None \<Rightarrow> None | Some x \<Rightarrow> f x)"

definition coalesce :: "'a option \<Rightarrow> 'a option \<Rightarrow> 'a option" where
  "coalesce a b = (case a of Some x \<Rightarrow> Some x | None \<Rightarrow> b)"

definition ne_missing :: "'a option \<Rightarrow> 'a option \<Rightarrow> bool" where
  "ne_missing a b \<longleftrightarrow> a \<noteq> b"

text \<open>
  \<^verbatim>\<open>join(how="left", on="date_time", coalesce=False, maintain_order="left")\<close>: each left
  row once per right row with its key, in the order of the right frame, or once with the
  right columns null when there is none. A null key matches nothing.
\<close>

definition matching :: "int \<Rightarrow> 'v binance_ohlcv list \<Rightarrow> 'v binance_ohlcv list" where
  "matching t right = filter (\<lambda>r. date_time r = Some t) right"

definition left_join ::
  "('v filled_row \<Rightarrow> 'v binance_ohlcv option \<Rightarrow> 'v filled_row)
     \<Rightarrow> 'v filled_row list \<Rightarrow> 'v binance_ohlcv list \<Rightarrow> 'v filled_row list" where
  "left_join attach left right =
     concat (map (\<lambda>l. case matching (f_date_time l) right of
                         [] \<Rightarrow> [attach l None]
                       | ms \<Rightarrow> map (\<lambda>r. attach l (Some r)) ms) left)"

text \<open>
  The rows \<^verbatim>\<open>filled_data\<close> holds once collected: the timeline with its five null
  columns, joined with the Daily and then with the Monthly series, the five columns then
  coalesced.
\<close>

definition filled_rows ::
  "BinanceDataConfig \<Rightarrow> datetime \<Rightarrow> datetime \<Rightarrow> 'v binance_ohlcv list \<Rightarrow> 'v binance_ohlcv list
     \<Rightarrow> 'v filled_row list" where
  "filled_rows config start stop daily_data monthly_data =
     map (\<lambda>r. r\<lparr>f_open := coalesce (col open_v (daily r)) (col open_v (monthly r)),
                 f_high := coalesce (col high (daily r)) (col high (monthly r)),
                 f_low := coalesce (col low (daily r)) (col low (monthly r)),
                 f_close := coalesce (col close (daily r)) (col close (monthly r)),
                 f_volume := coalesce (col volume (daily r)) (col volume (monthly r))\<rparr>)
       (left_join (\<lambda>l r. l\<lparr>monthly := r\<rparr>)
          (left_join (\<lambda>l r. l\<lparr>daily := r\<rparr>)
             (map (\<lambda>t. \<lparr>f_date_time = t, f_open = None, f_high = None, f_low = None,
                         f_close = None, f_volume = None, daily = None, monthly = None\<rparr>)
                (datetime_range start stop (interval config)))
             daily_data)
          monthly_data)"

text \<open>
  The key column of the timeline has the type \<^verbatim>\<open>datetime_range\<close> gives it: a
  \<^verbatim>\<open>Datetime\<close> with the time zone of \<open>start\<close> and \<open>end\<close>, none for naive bounds. The key
  column of a series is \<^verbatim>\<open>date_time\<close> of \<^verbatim>\<open>BinanceOHLCV\<close>, declared with the time
  zone UTC. polars joins keys of one type only: on a naive timeline the collection of the
  lazy frame raises \<^verbatim>\<open>SchemaError\<close>, whatever the rows.
\<close>

definition series_time_zone :: "tzinfo option" where
  "series_time_zone = Some UTC"

definition filled_data ::
  "BinanceDataConfig \<Rightarrow> datetime \<Rightarrow> datetime \<Rightarrow> 'v binance_ohlcv list \<Rightarrow> 'v binance_ohlcv list
     \<Rightarrow> error + 'v filled_row list" where
  "filled_data config start stop daily_data monthly_data =
     (if tzinfo start = series_time_zone \<and> tzinfo stop = series_time_zone
      then Inr (filled_rows config start stop daily_data monthly_data)
      else Inl SchemaError)"

definition ambiguous :: "'v filled_row \<Rightarrow> bool" where
  "ambiguous r \<longleftrightarrow>
     (ne_missing (col open_v (daily r)) (col open_v (monthly r))
      \<or> ne_missing (col high (daily r)) (col high (monthly r))
      \<or> ne_missing (col low (daily r)) (col low (monthly r))
      \<or> ne_missing (col close (daily r)) (col close (monthly r))
      \<or> ne_missing (col volume (daily r)) (col volume (monthly r)))
     \<and> col date_time (daily r) \<noteq> None
     \<and> col date_time (monthly r) \<noteq> None"

text \<open>
  Modelled from the spec: \<^verbatim>\<open>OHLCV.column_names()\<close> of \<^verbatim>\<open>baikal.common.trade.models\<close>,
  which is not among the sources. The spec gives the canonical output schema as the
  eleven columns of a candle row, so selecting them from a series keeps its rows, and
  selecting them from \<^verbatim>\<open>filled_data\<close> takes the timeline's \<^verbatim>\<open>date_time\<close>, the five
  coalesced columns and the five further columns under the names the first join gave them.
\<close>

definition select_ohlcv :: "'v filled_row \<Rightarrow> 'v binance_ohlcv" where
  "select_ohlcv r =
     \<lparr>date_time = Some (f_date_time r), open_v = f_open r, high = f_high r, low = f_low r,
      close = f_close r, volume = f_volume r,
      close_date_time = col close_date_time (daily r),
      quote_volume = col quote_volume (daily r),
      trades_count = col trades_count (daily r),
      taker_buy_base_volume = col taker_buy_base_volume (daily r),
      taker_buy_quote_volume = col taker_buy_quote_volume (daily r)\<rparr>"

text \<open>
  \<^verbatim>\<open>load_ohlcv\<close> returns the selected frame; the ambiguous entries go to the log, as a
  warning when there is at least one. The result here carries both, and the calls of
  \<^verbatim>\<open>_load_ohlcv_file\<close> made on the way.
\<close>

record 'v loaded =
  ohlcv :: "'v binance_ohlcv list"
  ambiguous_entries :: "'v filled_row list"
  fetches :: "(BinanceDataGranularity \<times> date) list"

definition load_ohlcv ::
  "'v store \<Rightarrow> BinanceDataConfig \<Rightarrow> datetime \<Rightarrow> datetime \<Rightarrow> error + 'v loaded" where
  "load_ohlcv root_dir config start stop =
     (case priv_load_ohlcv root_dir config start stop DAILY of
        Inl e \<Rightarrow> Inl e
      | Inr (daily_data, fetched_daily) \<Rightarrow>
          (case priv_load_ohlcv root_dir config start stop MONTHLY of
             Inl e \<Rightarrow> Inl e
           | Inr (monthly_data, fetched_monthly) \<Rightarrow>
               (case filled_data config start stop daily_data monthly_data of
                  Inl e \<Rightarrow> Inl e
                | Inr filled \<Rightarrow>
                    Inr \<lparr>ohlcv = map select_ohlcv filled,
                          ambiguous_entries = filter ambiguous filled,
                          fetches = map (Pair DAILY) fetched_daily
                                    @ map (Pair MONTHLY) fetched_monthly\<rparr>)))"


section \<open>The loader on an empty or reversed interval\<close>

lemma loop_done:
  "dt_lt c stop = Inr False \<Longrightarrow>
   priv_load_ohlcv_loop root_dir config start stop g secs c st = Inr st"
  by (cases st) (simp add: priv_load_ohlcv_loop.simps)

lemma priv_load_ohlcv_not_before:
  assumes "dt_lt start stop = Inr False"
  shows "priv_load_ohlcv root_dir config start stop g = Inr ([], [])"
proof -
  from assms have "tzinfo stop = tzinfo start" by (simp add: dt_lt_def split: if_splits)
  then have "dt_sub stop start = Inr (dt_micros stop - dt_micros start)" by (simp add: dt_sub_def)
  then show ?thesis by (simp add: priv_load_ohlcv_def loop_done [OF assms])
qed

lemma dt_lt_irrefl: "dt_lt t t = Inr False"
  by (simp add: dt_lt_def)

lemma dt_lt_asym: "dt_lt a b = Inr True \<Longrightarrow> dt_lt b a = Inr False"
  by (auto simp: dt_lt_def split: if_splits)

lemma add_months_0: "valid_datetime t \<Longrightarrow> add_months t 0 = t"
  by (simp add: add_months_def valid_datetime_def valid_date_def Let_def min_def)

lemma range_step_empty: "e \<le> s \<Longrightarrow> range_step s e step = []"
  by (simp add: range_step.simps)

lemma month_range_empty: "e \<le> epoch_micros start \<Longrightarrow> month_range start e 0 = []"
  by (subst month_range.simps) (auto simp: add_months_0)

lemma datetime_range_empty:
  "epoch_micros stop \<le> epoch_micros start \<Longrightarrow> datetime_range start stop every = []"
  by (simp add: datetime_range_def range_step_empty month_range_empty split: option.splits)

lemma filled_data_empty:
  "datetime_range start stop (interval config) = [] \<Longrightarrow>
   filled_rows config start stop daily_data monthly_data = []"
  by (simp add: filled_rows_def left_join_def)

lemma priv_load_ohlcv_time_zone:
  "priv_load_ohlcv root_dir config start stop g = Inr x \<Longrightarrow> tzinfo stop = tzinfo start"
  by (simp add: priv_load_ohlcv_def dt_sub_def split: if_splits)

lemma load_ohlcv_result:
  assumes "priv_load_ohlcv root_dir config start stop DAILY = Inr (daily_data, fd)"
    and "priv_load_ohlcv root_dir config start stop MONTHLY = Inr (monthly_data, fm)"
    and "tzinfo start = Some UTC"
  shows "load_ohlcv root_dir config start stop
           = Inr \<lparr>ohlcv = map select_ohlcv (filled_rows config start stop daily_data monthly_data),
                  ambiguous_entries
                    = filter ambiguous (filled_rows config start stop daily_data monthly_data),
                  fetches = map (Pair DAILY) fd @ map (Pair MONTHLY) fm\<rparr>"
  using priv_load_ohlcv_time_zone [OF assms(1)]
  by (simp add: load_ohlcv_def filled_data_def series_time_zone_def assms)

lemma load_ohlcv_naive:
  assumes "priv_load_ohlcv root_dir config start stop DAILY = Inr (daily_data, fd)"
    and "priv_load_ohlcv root_dir config start stop MONTHLY = Inr (monthly_data, fm)"
    and "tzinfo start = None"
  shows "load_ohlcv root_dir config start stop = Inl SchemaError"
  by (simp add: load_ohlcv_def filled_data_def series_time_zone_def assms)

lemma load_ohlcv_empty:
  assumes "dt_lt start stop = Inr False" "epoch_micros stop \<le> epoch_micros start"
    and "tzinfo start = Some UTC"
  shows "load_ohlcv root_dir config start stop
           = Inr \<lparr>ohlcv = [], ambiguous_entries = [], fetches = []\<rparr>"
  unfolding load_ohlcv_result [OF priv_load_ohlcv_not_before [OF assms(1)]
      priv_load_ohlcv_not_before [OF assms(1)] assms(3)]
  by (simp add: filled_data_empty [OF datetime_range_empty [OF assms(2)]])

lemma dt_lt_micros:
  assumes "valid_datetime a" "valid_datetime b" "dt_lt a b = Inr True"
  shows "dt_micros a < dt_micros b"
proof -
  from assms(3) have "dt_tuple a < dt_tuple b" by (simp add: dt_lt_def split: if_splits)
  then show ?thesis
    by (rule dt_micros_less [OF assms(1,2) [THEN valid_datetime_wall_clock]])
qed

text \<open>
  C7, as the code has it. When \<open>start\<close> equals \<open>end\<close>, the loop of either granularity
  is not entered and \<open>_load_ohlcv_file\<close> is never called. For aware bounds \<open>load_ohlcv\<close>
  then returns an empty candle series and an empty list of ambiguous entries; for naive
  bounds the join of the naive timeline with the series raises \<open>SchemaError\<close>.
\<close>

theorem load_ohlcv_start_eq_end:
  "priv_load_ohlcv root_dir config start start g = Inr ([], [])
   \<and> (tzinfo start = Some UTC \<longrightarrow>
        load_ohlcv root_dir config start start
          = Inr \<lparr>ohlcv = [], ambiguous_entries = [], fetches = []\<rparr>)
   \<and> (tzinfo start = None \<longrightarrow> load_ohlcv root_dir config start start = Inl SchemaError)"
proof (intro conjI impI)
  show b: "priv_load_ohlcv root_dir config start start g = Inr ([], [])" for g
    by (rule priv_load_ohlcv_not_before [OF dt_lt_irrefl])
  show "load_ohlcv root_dir config start start
          = Inr \<lparr>ohlcv = [], ambiguous_entries = [], fetches = []\<rparr>"
    if "tzinfo start = Some UTC"
    by (rule load_ohlcv_empty [OF dt_lt_irrefl order_refl that])
  show "load_ohlcv root_dir config start start = Inl SchemaError" if "tzinfo start = None"
    by (rule load_ohlcv_naive [OF b b that])
qed

text \<open>
  C5, as the code has it. No check of the interval is made and no error is raised for
  it: when \<open>start\<close> lies after \<open>end\<close>, the loop of either granularity is not entered and
  no archive is looked for. For aware bounds the timeline is empty and \<open>load_ohlcv\<close>
  returns an empty series and no ambiguous entries; for naive bounds the join of the
  naive timeline with the series raises \<open>SchemaError\<close>.
\<close>

theorem load_ohlcv_start_after_end:
  assumes "valid_datetime start" "valid_datetime stop" "dt_lt stop start = Inr True"
  shows "priv_load_ohlcv root_dir config start stop g = Inr ([], [])
   \<and> (tzinfo start = Some UTC \<longrightarrow>
        load_ohlcv root_dir config start stop
          = Inr \<lparr>ohlcv = [], ambiguous_entries = [], fetches = []\<rparr>)
   \<and> (tzinfo start = None \<longrightarrow> load_ohlcv root_dir config start stop = Inl SchemaError)"
proof (intro conjI impI)
  have n: "dt_lt start stop = Inr False" by (rule dt_lt_asym [OF assms(3)])
  from dt_lt_micros [OF assms(2,1,3)] have e: "epoch_micros stop \<le> epoch_micros start"
    by (simp add: epoch_micros_def)
  show b: "priv_load_ohlcv root_dir config start stop g = Inr ([], [])" for g
    by (rule priv_load_ohlcv_not_before [OF n])
  show "load_ohlcv root_dir config start stop
          = Inr \<lparr>ohlcv = [], ambiguous_entries = [], fetches = []\<rparr>"
    if "tzinfo start = Some UTC"
    by (rule load_ohlcv_empty [OF n e that])
  show "load_ohlcv root_dir config start stop = Inl SchemaError" if "tzinfo start = None"
    by (rule load_ohlcv_naive [OF b b that])
qed

definition utc_midnight :: "nat \<Rightarrow> nat \<Rightarrow> nat \<Rightarrow> datetime" where
  "utc_midnight y m d = \<lparr>year = y, month = m, day = d, hour = 0, minute = 0, second = 0,
      microsecond = 0, tzinfo = Some UTC\<rparr>"

definition naive_midnight :: "nat \<Rightarrow> nat \<Rightarrow> nat \<Rightarrow> datetime" where
  "naive_midnight y m d = \<lparr>year = y, month = m, day = d, hour = 0, minute = 0, second = 0,
      microsecond = 0, tzinfo = None\<rparr>"

definition btcusdt :: "BinanceDataInterval \<Rightarrow> BinanceDataConfig" where
  "btcusdt every = \<lparr>data_type = OHLCV, instrument_type = SPOT, interval = every,
      symbol = ''BTCUSDT''\<rparr>"

definition no_archives :: "int store" where
  "no_archives p = None"

theorem load_ohlcv_start_after_end_counterexample:
  "load_ohlcv no_archives (btcusdt ONE_MINUTE) (utc_midnight 2020 3 2) (utc_midnight 2020 1 30)
     = Inr \<lparr>ohlcv = [], ambiguous_entries = [], fetches = []\<rparr>"
  by code_simp

theorem load_ohlcv_start_after_end_witness:
  "valid_datetime (utc_midnight 2020 3 2) \<and> valid_datetime (utc_midnight 2020 1 30)
   \<and> dt_lt (utc_midnight 2020 1 30) (utc_midnight 2020 3 2) = Inr True
   \<and> tzinfo (utc_midnight 2020 3 2) = Some UTC
   \<and> priv_load_ohlcv no_archives (btcusdt ONE_MINUTE) (utc_midnight 2020 3 2)
        (utc_midnight 2020 1 30) DAILY = Inr ([], [])
   \<and> load_ohlcv no_archives (btcusdt ONE_MINUTE) (utc_midnight 2020 3 2) (utc_midnight 2020 1 30)
      = Inr \<lparr>ohlcv = [], ambiguous_entries = [], fetches = []\<rparr>"
proof -
  have a: "valid_datetime (utc_midnight 2020 3 2)" by code_simp
  have b: "valid_datetime (utc_midnight 2020 1 30)" by code_simp
  have c: "dt_lt (utc_midnight 2020 1 30) (utc_midnight 2020 3 2) = Inr True" by code_simp
  have z: "tzinfo (utc_midnight 2020 3 2) = Some UTC" by (simp add: utc_midnight_def)
  from load_ohlcv_start_after_end [OF a b c, of no_archives "btcusdt ONE_MINUTE" DAILY] a b c z
  show ?thesis by blast
qed

text \<open>A naive instant as both bounds: the builds return, the join raises.\<close>

theorem load_ohlcv_start_eq_end_counterexample:
  "load_ohlcv no_archives (btcusdt ONE_MINUTE) (naive_midnight 2020 3 2) (naive_midnight 2020 3 2)
     = Inl SchemaError"
  by code_simp

theorem load_ohlcv_start_eq_end_witness:
  "tzinfo (utc_midnight 2020 3 2) = Some UTC
   \<and> priv_load_ohlcv no_archives (btcusdt ONE_MINUTE) (utc_midnight 2020 3 2)
        (utc_midnight 2020 3 2) DAILY = Inr ([], [])
   \<and> load_ohlcv no_archives (btcusdt ONE_MINUTE) (utc_midnight 2020 3 2) (utc_midnight 2020 3 2)
      = Inr \<lparr>ohlcv = [], ambiguous_entries = [], fetches = []\<rparr>"
proof -
  have z: "tzinfo (utc_midnight 2020 3 2) = Some UTC" by (simp add: utc_midnight_def)
  from load_ohlcv_start_eq_end [of no_archives "btcusdt ONE_MINUTE" "utc_midnight 2020 3 2" DAILY] z
  show ?thesis by blast
qed


section \<open>The progress division\<close>

lemma dt_lt_error: "dt_lt a b = Inl e \<Longrightarrow> e = TypeError"
  by (simp add: dt_lt_def split: if_splits)

lemma dt_sub_error: "dt_sub a b = Inl e \<Longrightarrow> e = TypeError"
  by (simp add: dt_sub_def split: if_splits)

lemma priv_load_ohlcv_file_error:
  "priv_load_ohlcv_file root_dir config d g = Inl e \<Longrightarrow> e = ArchiveError"
  by (auto simp: priv_load_ohlcv_file_def split: option.splits archive.splits)

lemma next_chunk_error: "next_chunk g t = Inl e \<Longrightarrow> e = OverflowError \<or> e = ValueError"
  by (cases g)
     (auto simp: mk_datetime_def date_add_day_def date_add_month_def Let_def
       split: sum.splits if_splits)

lemma truediv_error: "truediv a b = Inl e \<Longrightarrow> b = 0"
  by (simp add: truediv_def split: if_splits)

lemma loop_no_zero_division:
  "wall_clock start \<Longrightarrow> wall_clock stop \<Longrightarrow>
   secs = total_seconds (dt_micros stop - dt_micros start) \<Longrightarrow>
   dt_tuple start \<le> dt_tuple c \<Longrightarrow>
   priv_load_ohlcv_loop root_dir config start stop g secs c st \<noteq> Inl ZeroDivisionError"
proof (induction root_dir config start stop g secs c st rule: priv_load_ohlcv_loop.induct)
  case (1 root_dir config start stop g secs c chunks fetched)
  show ?case
  proof
    assume z: "priv_load_ohlcv_loop root_dir config start stop g secs c (chunks, fetched)
                 = Inl ZeroDivisionError"
    from z obtain continue where lt: "dt_lt c stop = Inr continue"
      by (subst (asm) priv_load_ohlcv_loop.simps) (auto split: sum.splits dest: dt_lt_error)
    with z have continue
      by (subst (asm) priv_load_ohlcv_loop.simps) (auto split: if_splits)
    with lt have "dt_tuple c < dt_tuple stop" by (simp add: dt_lt_def split: if_splits)
    with "1.prems"(4) have "dt_tuple start < dt_tuple stop" by simp
    from dt_micros_less [OF "1.prems"(1,2) this] have nz: "secs \<noteq> 0"
      by (simp add: "1.prems"(3) total_seconds_def)
    from z lt \<open>continue\<close> obtain chunk where
      f: "priv_load_ohlcv_file root_dir config (dt_date c) g = Inr chunk"
      by (subst (asm) priv_load_ohlcv_loop.simps)
         (auto split: sum.splits dest: priv_load_ohlcv_file_error)
    from z lt \<open>continue\<close> f obtain n where n: "next_chunk g c = Inr n"
      by (subst (asm) priv_load_ohlcv_loop.simps) (auto split: sum.splits dest: next_chunk_error)
    from z lt \<open>continue\<close> f n obtain loaded where l: "dt_sub n start = Inr loaded"
      by (subst (asm) priv_load_ohlcv_loop.simps) (auto split: sum.splits dest: dt_sub_error)
    from nz obtain completed where t: "truediv (total_seconds loaded) secs = Inr completed"
      by (simp add: truediv_def)
    from next_chunk_tuple_less [OF n] "1.prems"(4) have le: "dt_tuple start \<le> dt_tuple n"
      by simp
    from "1.IH" [OF lt _ f n l t "1.prems"(1,2,3) le] \<open>continue\<close>
    have "priv_load_ohlcv_loop root_dir config start stop g secs n
            (case chunk of None \<Rightarrow> chunks | Some c \<Rightarrow> chunks @ [c], fetched @ [dt_date c])
          \<noteq> Inl ZeroDivisionError" by simp
    moreover from z lt \<open>continue\<close> f n l t
    have "priv_load_ohlcv_loop root_dir config start stop g secs n
            (case chunk of None \<Rightarrow> chunks | Some c \<Rightarrow> chunks @ [c], fetched @ [dt_date c])
          = Inl ZeroDivisionError"
      by (subst (asm) priv_load_ohlcv_loop.simps) simp
    ultimately show False by simp
  qed
qed

text \<open>
  C10. The progress update divides by the length of the interval in seconds. The
  division is reached only inside the loop, whose body runs only for a cursor before
  \<open>end\<close>; the cursor never lies before \<open>start\<close>, so the divisor is positive there, and
  \<open>_load_ohlcv\<close> never ends in a division by zero, \<open>start = end\<close> included.
\<close>

theorem priv_load_ohlcv_no_zero_division:
  assumes "valid_datetime start" "valid_datetime stop"
  shows "priv_load_ohlcv root_dir config start stop g \<noteq> Inl ZeroDivisionError"
proof (cases "dt_sub stop start")
  case (Inl e)
  then show ?thesis by (auto simp: priv_load_ohlcv_def dest: dt_sub_error)
next
  case (Inr delta)
  then have d: "delta = dt_micros stop - dt_micros start"
    by (simp add: dt_sub_def split: if_splits)
  from loop_no_zero_division [OF assms [THEN valid_datetime_wall_clock] refl order_refl]
  have "priv_load_ohlcv_loop root_dir config start stop g (total_seconds delta) start ([], [])
          \<noteq> Inl ZeroDivisionError" unfolding d .
  then show ?thesis
    by (auto simp: priv_load_ohlcv_def Inr split: sum.splits if_splits)
qed

theorem priv_load_ohlcv_no_zero_division_witness:
  "valid_datetime (utc_midnight 2020 1 30) \<and> valid_datetime (utc_midnight 2020 2 2)
   \<and> priv_load_ohlcv no_archives (btcusdt ONE_MINUTE) (utc_midnight 2020 1 30)
        (utc_midnight 2020 2 2) DAILY \<noteq> Inl ZeroDivisionError"
proof -
  have a: "valid_datetime (utc_midnight 2020 1 30)" by code_simp
  have b: "valid_datetime (utc_midnight 2020 2 2)" by code_simp
  from priv_load_ohlcv_no_zero_division [OF a b] a b show ?thesis by blast
qed


section \<open>Chunk boundaries\<close>

definition midnight :: "datetime \<Rightarrow> bool" where
  "midnight t \<longleftrightarrow> hour t = 0 \<and> minute t = 0 \<and> second t = 0 \<and> microsecond t = 0"

text \<open>A chunk boundary: the start of a day, or the start of the first day of a month.\<close>

fun boundary :: "BinanceDataGranularity \<Rightarrow> datetime \<Rightarrow> bool" where
  "boundary DAILY t = midnight t"
| "boundary MONTHLY t = (midnight t \<and> day t = 1)"

text \<open>The last day, and the last month, after which the calendar of the type ends.\<close>

fun last_chunk :: "BinanceDataGranularity \<Rightarrow> datetime \<Rightarrow> bool" where
  "last_chunk DAILY t = (year t = MAXYEAR \<and> month t = 12 \<and> day t = 31)"
| "last_chunk MONTHLY t = (year t = MAXYEAR \<and> month t = 12)"

text \<open>The number of whole chunks before the one an instant lies in.\<close>

fun chunk_index :: "BinanceDataGranularity \<Rightarrow> datetime \<Rightarrow> int" where
  "chunk_index DAILY t = toordinal t"
| "chunk_index MONTHLY t = 12 * int (year t) + int (month t)"

lemma date_add_day_ordinal:
  assumes "valid_date d" "date_add_day d = Inr n"
  shows "toordinal n = toordinal d + 1"
proof -
  have m: "1 \<le> month d" "month d \<le> 12" "day d \<le> days_in_month (year d) (month d)"
    using assms(1) by (simp_all add: valid_date_def)
  consider (same) "day d < days_in_month (year d) (month d)"
    | (month) "day d = days_in_month (year d) (month d)" "month d < 12"
    | (year) "day d = days_in_month (year d) (month d)" "month d = 12"
    using m by linarith
  then show ?thesis
  proof cases
    case same
    with assms(2) show ?thesis by (auto simp: date_add_day_def toordinal_def)
  next
    case month
    with assms(2) have "n = \<lparr>year = year d, month = Suc (month d), day = 1\<rparr>"
      by (auto simp: date_add_day_def)
    then show ?thesis using month m(1)
      by (simp add: toordinal_def days_before_month_Suc)
  next
    case year
    with assms(2) have "n = \<lparr>year = Suc (year d), month = 1, day = 1\<rparr>"
      by (auto simp: date_add_day_def split: if_splits)
    then show ?thesis using year days_before_month_last [of "year d"]
      by (simp add: toordinal_def days_before_year_Suc days_before_month_first)
  qed
qed

lemma date_add_day_valid:
  assumes "valid_date d" "date_add_day d = Inr n"
  shows "valid_date n"
  using assms days_in_month_pos(1) [of "year d" "Suc (month d)"] days_in_month_pos(1) [of "Suc (year d)" 1]
  by (auto simp: date_add_day_def valid_date_def MAXYEAR_def MINYEAR_def split: if_splits)

lemma date_add_day_defined:
  assumes "valid_date d" "\<not> (year d = MAXYEAR \<and> month d = 12 \<and> day d = 31)"
  shows "\<exists>n. date_add_day d = Inr n"
proof -
  have "month d = 12 \<Longrightarrow> days_in_month (year d) (month d) = 31" by (simp add: days_in_month_def)
  then show ?thesis using assms
    by (auto simp: date_add_day_def valid_date_def)
qed

lemma date_add_month_defined:
  assumes "valid_date d" "\<not> (year d = MAXYEAR \<and> month d = 12)"
  shows "\<exists>n. date_add_month d = Inr n"
  using assms days_in_month_pos(1)
  by (auto simp: date_add_month_def valid_date_def Let_def MAXYEAR_def MINYEAR_def min_def
      intro: order_trans [OF _ days_in_month_pos(1)])

lemma date_add_month_index:
  assumes "valid_date d" "date_add_month d = Inr n"
  shows "12 * year n + month n = 12 * year d + month d + 1" "1 \<le> month n" "month n \<le> 12"
    "MINYEAR \<le> year n" "year n \<le> MAXYEAR"
  using assms by (auto simp: date_add_month_def valid_date_def Let_def split: if_splits)

lemma mk_datetime_fields:
  assumes "mk_datetime y m d tz = Inr n"
  shows "year n = y" "month n = m" "day n = d" "midnight n" "tzinfo n = tz" "valid_datetime n"
  using assms by (auto simp: mk_datetime_def Let_def midnight_def split: if_splits)

lemma mk_datetime_defined:
  assumes "valid_date \<lparr>year = y, month = m, day = d\<rparr>"
  shows "\<exists>n. mk_datetime y m d tz = Inr n"
  using assms by (simp add: mk_datetime_def Let_def valid_datetime_def valid_date_def)


lemma midnight_micros: "midnight t \<Longrightarrow> dt_micros t = toordinal t * 86400000000"
  by (simp add: midnight_def dt_micros_def)

lemma dt_micros_day: 
  assumes "wall_clock t"
  shows "toordinal t * 86400000000 \<le> dt_micros t" "dt_micros t < (toordinal t + 1) * 86400000000"
  using assms by (simp_all add: wall_clock_def dt_micros_def)

lemma least_daily_boundary:
  assumes t: "wall_clock t" and n: "wall_clock n" "midnight n" "toordinal n = toordinal t + 1"
    and b: "wall_clock b" "midnight b" "dt_tuple t < dt_tuple b"
  shows "dt_tuple n \<le> dt_tuple b"
proof (rule ccontr)
  assume "\<not> dt_tuple n \<le> dt_tuple b"
  then have "dt_tuple b < dt_tuple n" by simp
  from dt_micros_less [OF b(1) n(1) this] have "toordinal b < toordinal t + 1"
    by (simp add: midnight_micros [OF n(2)] midnight_micros [OF b(2)] n(3))
  moreover from dt_micros_less [OF t b(1) b(3)] dt_micros_day(1) [OF t]
  have "toordinal t < toordinal b" by (simp add: midnight_micros [OF b(2)])
  ultimately show False by simp
qed

lemma least_monthly_boundary:
  assumes t: "wall_clock t"
    and n: "midnight n" "day n = 1" "12 * year n + month n = 12 * year t + month t + 1"
       "1 \<le> month n" "month n \<le> 12"
    and b: "wall_clock b" "midnight b" "day b = 1" "dt_tuple t < dt_tuple b"
  shows "dt_tuple n \<le> dt_tuple b"
proof -
  have mt: "1 \<le> month t" "month t \<le> 12" "1 \<le> day t"
    using t by (simp_all add: wall_clock_def calendar_day_def)
  have mb: "1 \<le> month b" "month b \<le> 12"
    using b(1) by (simp_all add: wall_clock_def calendar_day_def)
  have "year t < year b \<or> year t = year b \<and> month t < month b"
    using b(4) b(3) b(2) mt(3) unfolding dt_tuple_def less_pair_iff midnight_def by auto
  then have "12 * year t + month t < 12 * year b + month b" using mt mb by arith
  then have "12 * year n + month n \<le> 12 * year b + month b" using n(3) by simp
  then have "year n < year b \<or> year n = year b \<and> month n < month b
             \<or> year n = year b \<and> month n = month b" using n(4,5) mb by arith
  then show ?thesis
    using n(1,2) b(2,3) by (auto simp: dt_tuple_def midnight_def)
qed

text \<open>On the last day, and in the last month, the date arithmetic raises.\<close>

lemma next_chunk_last_chunk:
  assumes "valid_datetime t" "last_chunk g t"
  shows "next_chunk g t = Inl (case g of DAILY \<Rightarrow> OverflowError | MONTHLY \<Rightarrow> ValueError)"
proof (cases g)
  case DAILY
  with assms(2) show ?thesis
    by (simp add: dt_date_def date_add_day_def days_in_month_def)
next
  case MONTHLY
  with assms(2) show ?thesis
    by (simp add: dt_date_def date_add_month_def valid_date_def MAXYEAR_def Let_def)
qed

text \<open>
  C9, on every instant but those of the last day (Daily) or the last month (Monthly) the
  type can hold. \<open>next_chunk\<close> returns a valid instant at 00:00 with the time zone of its
  argument, on the day after the argument's day (Daily) or on the first day of the month
  after its month (Monthly). The result is strictly greater than the argument and is the
  least boundary that is: no boundary lies between the two, so iterating \<open>next_chunk\<close>
  visits the boundaries one by one in increasing order.
\<close>

theorem next_chunk_next_boundary:
  assumes "valid_datetime t" "\<not> last_chunk g t"
  shows "\<exists>n. next_chunk g t = Inr n \<and> valid_datetime n \<and> boundary g n \<and> tzinfo n = tzinfo t
           \<and> chunk_index g n = chunk_index g t + 1
           \<and> dt_lt t n = Inr True
           \<and> (\<forall>b. valid_datetime b \<and> boundary g b \<and> dt_tuple t < dt_tuple b
                  \<longrightarrow> dt_tuple n \<le> dt_tuple b)"
proof -
  have vd: "valid_date (dt_date t)" and wt: "wall_clock t"
    using assms(1) by (simp_all add: valid_datetime_def valid_date_def dt_date_def
        valid_datetime_wall_clock)
  show ?thesis
  proof (cases g)
    case DAILY
    with assms(2) have "\<not> (year (dt_date t) = MAXYEAR \<and> month (dt_date t) = 12
        \<and> day (dt_date t) = 31)" by (simp add: dt_date_def)
    from date_add_day_defined [OF vd this] obtain d where d: "date_add_day (dt_date t) = Inr d" ..
    from date_add_day_valid [OF vd d] have "valid_date \<lparr>year = year d, month = month d, day = day d\<rparr>"
      by (simp add: valid_date_def)
    from mk_datetime_defined [OF this] obtain n
      where n: "mk_datetime (year d) (month d) (day d) (tzinfo t) = Inr n" ..
    note f = mk_datetime_fields [OF n]
    have nc: "next_chunk g t = Inr n" by (simp add: DAILY d n)
    have ord: "toordinal n = toordinal t + 1"
      using date_add_day_ordinal [OF vd d] f(1-3) by (simp add: toordinal_def dt_date_def)
    have lt: "dt_lt t n = Inr True"
      using next_chunk_tuple_less [OF nc] f(5) by (simp add: dt_lt_def)
    have least: "dt_tuple n \<le> dt_tuple b"
      if "valid_datetime b \<and> boundary g b \<and> dt_tuple t < dt_tuple b" for b
      using that least_daily_boundary [OF wt valid_datetime_wall_clock [OF f(6)] f(4) ord, of b]
      by (simp add: DAILY valid_datetime_wall_clock)
    show ?thesis
      using nc f(4,5,6) ord lt least by (auto simp: DAILY)
  next
    case MONTHLY
    with assms(2) have "\<not> (year (dt_date t) = MAXYEAR \<and> month (dt_date t) = 12)"
      by (simp add: dt_date_def)
    from date_add_month_defined [OF vd this] obtain d
      where d: "date_add_month (dt_date t) = Inr d" ..
    note i = date_add_month_index [OF vd d]
    have "valid_date \<lparr>year = year d, month = month d, day = 1\<rparr>"
      using i(2-5) days_in_month_pos(1) [of "year d" "month d"] by (simp add: valid_date_def)
    from mk_datetime_defined [OF this] obtain n
      where n: "mk_datetime (year d) (month d) 1 (tzinfo t) = Inr n" ..
    note f = mk_datetime_fields [OF n]
    have nc: "next_chunk g t = Inr n" using n by (simp add: MONTHLY d)
    have idx: "12 * year n + month n = 12 * year t + month t + 1"
      using i(1) f(1,2) by (simp add: dt_date_def)
    have lt: "dt_lt t n = Inr True"
      using next_chunk_tuple_less [OF nc] f(5) by (simp add: dt_lt_def)
    have least: "dt_tuple n \<le> dt_tuple b"
      if "valid_datetime b \<and> boundary g b \<and> dt_tuple t < dt_tuple b" for b
      using that least_monthly_boundary [OF wt f(4) f(3) idx, of b] i(2,3) f(2)
      by (simp add: MONTHLY valid_datetime_wall_clock)
    have "chunk_index g n = chunk_index g t + 1"
      using idx by (simp add: MONTHLY) 
    then show ?thesis
      using nc f(3,4,5,6) lt least by (auto simp: MONTHLY)
  qed
qed

definition last_day :: datetime where
  "last_day = utc_midnight 9999 12 31"

theorem next_chunk_last_day_counterexample:
  "valid_datetime last_day \<and> next_chunk DAILY last_day = Inl OverflowError
   \<and> next_chunk MONTHLY last_day = Inl ValueError"
  by (simp add: last_day_def utc_midnight_def valid_datetime_def valid_date_def MINYEAR_def
      MAXYEAR_def days_in_month_def dt_date_def date_add_day_def date_add_month_def)

theorem next_chunk_next_boundary_witness:
  "valid_datetime (utc_midnight 2020 2 29) \<and> \<not> last_chunk DAILY (utc_midnight 2020 2 29)
   \<and> (\<exists>n. next_chunk DAILY (utc_midnight 2020 2 29) = Inr n \<and> valid_datetime n \<and> boundary DAILY n
          \<and> tzinfo n = tzinfo (utc_midnight 2020 2 29)
          \<and> chunk_index DAILY n = chunk_index DAILY (utc_midnight 2020 2 29) + 1
          \<and> dt_lt (utc_midnight 2020 2 29) n = Inr True
          \<and> (\<forall>b. valid_datetime b \<and> boundary DAILY b \<and> dt_tuple (utc_midnight 2020 2 29) < dt_tuple b
                  \<longrightarrow> dt_tuple n \<le> dt_tuple b))"
proof -
  have a: "valid_datetime (utc_midnight 2020 2 29)" by code_simp
  have b: "\<not> last_chunk DAILY (utc_midnight 2020 2 29)" by code_simp
  from next_chunk_next_boundary [OF a b] a b show ?thesis by blast
qed


section \<open>The shape of the joined frame\<close>

text \<open>What a left join attaches to a row with key \<open>t\<close>: each matching row, or one null.\<close>

definition attached :: "int \<Rightarrow> 'v binance_ohlcv list \<Rightarrow> 'v binance_ohlcv option list" where
  "attached t right = (case matching t right of [] \<Rightarrow> [None] | ms \<Rightarrow> map Some ms)"

text \<open>The row of \<open>filled_data\<close> for a tick and the two rows attached to it.\<close>

definition filled ::
  "int \<Rightarrow> 'v binance_ohlcv option \<Rightarrow> 'v binance_ohlcv option \<Rightarrow> 'v filled_row" where
  "filled t d m =
     \<lparr>f_date_time = t,
      f_open = coalesce (col open_v d) (col open_v m),
      f_high = coalesce (col high d) (col high m),
      f_low = coalesce (col low d) (col low m),
      f_close = coalesce (col close d) (col close m),
      f_volume = coalesce (col volume d) (col volume m),
      daily = d, monthly = m\<rparr>"

lemma left_join_attached:
  "left_join attach left right =
     concat (map (\<lambda>l. map (attach l) (attached (f_date_time l) right)) left)"
  unfolding left_join_def attached_def
  by (rule arg_cong [where f = concat], rule map_cong [OF refl]) (simp split: list.splits)

lemma concat_map_concat:
  "concat (map f (concat xss)) = concat (map (\<lambda>xs. concat (map f xs)) xss)"
  by (induction xss) simp_all

lemma concat_concat_map:
  "concat (concat (map f xs)) = concat (map (\<lambda>x. concat (f x)) xs)"
  by (induction xs) simp_all

lemma filled_data_eq:
  "filled_rows config start stop daily_data monthly_data =
     concat (map (\<lambda>t. concat (map (\<lambda>d. map (\<lambda>m. filled t d m) (attached t monthly_data))
                                  (attached t daily_data)))
                 (datetime_range start stop (interval config)))"
  unfolding filled_rows_def left_join_attached
  by (simp add: map_concat concat_map_concat concat_concat_map comp_def filled_def)


definition no_duplicates :: "'v binance_ohlcv list \<Rightarrow> bool" where
  "no_duplicates rows \<longleftrightarrow> distinct (map date_time (filter (\<lambda>r. date_time r \<noteq> None) rows))"

lemma matching_at_most_one:
  "no_duplicates rows \<Longrightarrow> length (matching t rows) \<le> 1"
proof (induction rows)
  case Nil
  then show ?case by (simp add: matching_def)
next
  case (Cons r rs)
  then have ih: "length (matching t rs) \<le> 1" by (simp add: no_duplicates_def split: if_splits)
  show ?case
  proof (cases "date_time r = Some t")
    case True
    have "date_time x \<noteq> Some t" if "x \<in> set rs" for x
    proof
      assume "date_time x = Some t"
      with that have "Some t \<in> set (map date_time (filter (\<lambda>r. date_time r \<noteq> None) rs))"
        by force
      with Cons.prems True show False by (simp add: no_duplicates_def)
    qed
    then have "matching t rs = []" by (simp add: matching_def filter_empty_conv)
    with True show ?thesis by (simp add: matching_def)
  next
    case False
    with ih show ?thesis by (simp add: matching_def)
  qed
qed

lemma attached_single:
  assumes "no_duplicates rows"
  shows "\<exists>d. attached t rows = [d]"
proof (cases "matching t rows")
  case Nil
  then show ?thesis by (simp add: attached_def)
next
  case (Cons r rs)
  with matching_at_most_one [OF assms, of t] have "rs = []" by simp
  with Cons show ?thesis by (simp add: attached_def)
qed

lemma attached_not_empty: "attached t rows \<noteq> []"
  by (simp add: attached_def split: list.splits)

lemma range_step_ticks:
  assumes "0 < step"
  shows "range_step s e step
           = map (\<lambda>k. s + int k * step) [0..<nat \<lceil>real_of_int (e - s) / real_of_int step\<rceil>]"
  using assms
proof (induction s e step rule: range_step.induct)
  case (1 s e step)
  show ?case
  proof (cases "s < e")
    case False
    then have "real_of_int (e - s) / real_of_int step \<le> 0"
      using "1.prems" by (simp add: divide_le_0_iff)
    then have "\<lceil>real_of_int (e - s) / real_of_int step\<rceil> \<le> 0" by (simp add: ceiling_le_iff)
    with False show ?thesis by (simp add: range_step.simps)
  next
    case True
    define n where "n = nat \<lceil>real_of_int (e - (s + step)) / real_of_int step\<rceil>"
    have "real_of_int (e - s) / real_of_int step = real_of_int (e - (s + step)) / real_of_int step + 1"
      using "1.prems" by (simp add: field_simps)
    then have c: "\<lceil>real_of_int (e - s) / real_of_int step\<rceil>
                   = \<lceil>real_of_int (e - (s + step)) / real_of_int step\<rceil> + 1" by simp
    have "0 < real_of_int (e - s) / real_of_int step" using True "1.prems" by simp
    then have "0 < \<lceil>real_of_int (e - s) / real_of_int step\<rceil>" by (simp add: less_ceiling_iff)
    with c have "nat \<lceil>real_of_int (e - s) / real_of_int step\<rceil> = Suc n"
      by (simp add: n_def nat_add_distrib)
    moreover have "range_step (s + step) e step = map (\<lambda>k. s + step + int k * step) [0..<n]"
      using "1.IH" True "1.prems" by (simp add: n_def)
    ultimately show ?thesis using True "1.prems"
      by (subst range_step.simps) (simp add: map_upt_Suc algebra_simps del: upt_Suc)
  qed
qed

lemma interval_micros_pos: "interval_micros every = Some step \<Longrightarrow> 0 < step"
  by (cases every) auto

lemma range_step_sorted: "sorted_wrt (<) (range_step s e step)"
proof (cases "0 < step")
  case True
  show ?thesis unfolding range_step_ticks [OF True]
    using True by (simp add: sorted_wrt_map sorted_wrt_iff_nth_less)
next
  case False
  then show ?thesis by (simp add: range_step.simps)
qed

lemma month_range_elements:
  "x \<in> set (month_range start e i) \<Longrightarrow>
   valid_datetime start \<and> (\<exists>k\<ge>i. x = epoch_micros (add_months start k))"
proof (induction start e i rule: month_range.induct)
  case (1 start e i)
  show ?case
  proof (cases "valid_datetime start \<and> epoch_micros (add_months start i) < e")
    case False
    with "1.prems" show ?thesis by (subst (asm) month_range.simps) simp
  next
    case True
    with "1.prems" have "x = epoch_micros (add_months start i) \<or> x \<in> set (month_range start e (Suc i))"
      by (subst (asm) month_range.simps) auto
    then show ?thesis using "1.IH" [OF True] True by (auto intro: Suc_leD)
  qed
qed

lemma month_range_sorted: "sorted_wrt (<) (month_range start e i)"
proof (induction start e i rule: month_range.induct)
  case (1 start e i)
  show ?case
  proof (cases "valid_datetime start \<and> epoch_micros (add_months start i) < e")
    case False
    then have "month_range start e i = []" by (subst month_range.simps) auto
    then show ?thesis by simp
  next
    case True
    have "epoch_micros (add_months start i) < x" if "x \<in> set (month_range start e (Suc i))" for x
    proof -
      from month_range_elements [OF that] obtain k where "Suc i \<le> k" "x = epoch_micros (add_months start k)"
        by auto
      then show ?thesis
        using add_months_micros_less [OF valid_datetime_wall_clock, of start i k] True by simp
    qed
    moreover have "month_range start e i
        = epoch_micros (add_months start i) # month_range start e (Suc i)"
      using True by (subst month_range.simps) auto
    ultimately show ?thesis using "1.IH" [OF True] by simp
  qed
qed

lemma datetime_range_sorted: "sorted_wrt (<) (datetime_range start stop every)"
  by (simp add: datetime_range_def range_step_sorted month_range_sorted split: option.splits)


section \<open>Sample archives\<close>

text \<open>
  One-day candles of 2020-01-30 and 2020-01-31 for the examples below. The Daily archive
  of the first day and the Monthly archive of January overlap on the first day.
\<close>

definition candle :: "int \<Rightarrow> int \<Rightarrow> int \<Rightarrow> int raw_ohlcv" where
  "candle t a b =
     \<lparr>date_time = Some t, open_v = Some a, high = Some b, low = Some 1, close = Some 2,
      volume = None, close_date_time = Some (t + 86399999), quote_volume = None,
      trades_count = Some 7, taker_buy_base_volume = None, taker_buy_quote_volume = None,
      ignore = Some 0\<rparr>"

definition daily_path :: "string list" where
  "daily_path = [''spot'', ''daily'', ''klines'', ''BTCUSDT'', ''1d'', ''BTCUSDT-1d-2020-01-30.zip'']"

definition monthly_path :: "string list" where
  "monthly_path
     = [''spot'', ''monthly'', ''klines'', ''BTCUSDT'', ''1d'', ''BTCUSDT-1d-2020-01.zip'']"

text \<open>The two sources disagree on the first day, in two fields.\<close>

definition overlapping_archives :: "int store" where
  "overlapping_archives p =
     (if p = daily_path then Some (Csv [candle 1580342400000 3 4])
      else if p = monthly_path
        then Some (Csv [candle 1580342400000 5 6, candle 1580428800000 5 6])
      else None)"

text \<open>The Daily archive holds the row of its day twice.\<close>

definition repeating_archives :: "int store" where
  "repeating_archives p =
     (if p = daily_path then Some (Csv [candle 1580342400000 3 4, candle 1580342400000 3 4])
      else None)"


definition jan_30 :: datetime where "jan_30 = utc_midnight 2020 1 30"
definition jan_31 :: datetime where "jan_31 = utc_midnight 2020 1 31"
definition feb_1 :: datetime where "feb_1 = utc_midnight 2020 2 1"

lemmas eval_defs =
  load_ohlcv_def priv_load_ohlcv_def priv_load_ohlcv_loop.simps priv_load_ohlcv_file_def
  priv_find_file_path_def priv_from_unix_def from_epoch_def date_tuple_def dt_lt_def dt_sub_def
  dt_micros_def dt_tuple_def toordinal_def days_before_year_def days_before_month_def
  DAYS_BEFORE_MONTH_def is_leap_def days_in_month_def valid_datetime_def valid_date_def
  MINYEAR_def MAXYEAR_def mk_datetime_def date_add_day_def date_add_month_def dt_date_def
  total_seconds_def truediv_def filled_rows_def left_join_def matching_def datetime_range_def
  epoch_micros_def range_step.simps month_range.simps add_months_def col_def coalesce_def
  ne_missing_def ambiguous_def select_ohlcv_def format_02d_def utc_midnight_def btcusdt_def
  Let_def binance_ohlcv.truncate_def jan_30_def jan_31_def feb_1_def filled_data_def
  series_time_zone_def


definition sample_daily :: "int binance_ohlcv list" where
  "sample_daily = [binance_ohlcv.truncate (candle 1580342400000000 3 4)
      \<lparr>close_date_time := Some 1580428799999000\<rparr>]"

definition sample_monthly :: "int binance_ohlcv list" where
  "sample_monthly =
     [binance_ohlcv.truncate (candle 1580342400000000 5 6)
        \<lparr>close_date_time := Some 1580428799999000\<rparr>,
      binance_ohlcv.truncate (candle 1580428800000000 5 6)
        \<lparr>close_date_time := Some 1580515199999000\<rparr>]"

lemma sample_daily_series:
  "priv_load_ohlcv overlapping_archives (btcusdt ONE_DAY) jan_30
     feb_1 DAILY
   = Inr (sample_daily, [\<lparr>year = 2020, month = 1, day = 30\<rparr>, \<lparr>year = 2020, month = 1, day = 31\<rparr>])"
  by (simp add: eval_defs overlapping_archives_def daily_path_def monthly_path_def candle_def
      sample_daily_def)

lemma sample_monthly_series:
  "priv_load_ohlcv overlapping_archives (btcusdt ONE_DAY) jan_30
     feb_1 MONTHLY
   = Inr (sample_monthly, [\<lparr>year = 2020, month = 1, day = 30\<rparr>])"
  by (simp add: eval_defs overlapping_archives_def daily_path_def monthly_path_def candle_def
      sample_monthly_def)

lemma sample_no_duplicates: "no_duplicates sample_daily" "no_duplicates sample_monthly"
  by (simp_all add: no_duplicates_def sample_daily_def sample_monthly_def candle_def
      binance_ohlcv.truncate_def)

lemma repeating_daily_series:
  "priv_load_ohlcv repeating_archives (btcusdt ONE_DAY) jan_30
     jan_31 DAILY
   = Inr (sample_daily @ sample_daily, [\<lparr>year = 2020, month = 1, day = 30\<rparr>])"
  by (simp add: eval_defs repeating_archives_def daily_path_def candle_def sample_daily_def)

lemma repeating_monthly_series:
  "priv_load_ohlcv repeating_archives (btcusdt ONE_DAY) jan_30
     jan_31 MONTHLY
   = Inr ([], [\<lparr>year = 2020, month = 1, day = 30\<rparr>])"
  by (simp add: eval_defs repeating_archives_def daily_path_def candle_def)

lemma sample_epochs:
  "epoch_micros jan_30 = 1580342400000000"
  "epoch_micros jan_31 = 1580428800000000"
  "epoch_micros feb_1 = 1580515200000000"
  by (simp_all add: eval_defs)

lemma sample_aware: "tzinfo jan_30 = Some UTC"
  by (simp add: jan_30_def utc_midnight_def)

lemma sample_valid: "valid_datetime jan_30"
  by (simp add: jan_30_def utc_midnight_def valid_datetime_def valid_date_def MINYEAR_def
      MAXYEAR_def days_in_month_def)

section \<open>Rows of the output\<close>

lemma filled_group_times:
  "map f_date_time (concat (map (\<lambda>d. map (\<lambda>m. filled t d m) ms) ds))
     = replicate (length ds * length ms) t"
  by (induction ds) (simp_all add: replicate_add filled_def comp_def map_replicate_const)

lemma filled_groups_times:
  "map f_date_time (concat (map (\<lambda>t. concat (map (\<lambda>d. map (\<lambda>m. filled t d m) (M t)) (D t))) ts))
     = concat (map (\<lambda>t. replicate (length (D t) * length (M t)) t) ts)"
  by (induction ts) (simp_all only: list.map concat.simps map_append filled_group_times)

lemma filled_data_times:
  "map f_date_time (filled_rows config start stop daily_data monthly_data)
     = concat (map (\<lambda>t. replicate (length (attached t daily_data)
                                       * length (attached t monthly_data)) t)
                   (datetime_range start stop (interval config)))"
  unfolding filled_data_eq by (rule filled_groups_times)

lemma output_times:
  "map date_time (map select_ohlcv rows) = map Some (map f_date_time rows)"
  by (simp add: select_ohlcv_def)

lemma concat_singletons: "concat (map (\<lambda>t. [t]) ts) = ts"
  by (induction ts) simp_all

lemma filled_data_times_unique:
  assumes "no_duplicates daily_data" "no_duplicates monthly_data"
  shows "map f_date_time (filled_rows config start stop daily_data monthly_data)
           = datetime_range start stop (interval config)"
proof -
  have "length (attached t daily_data) * length (attached t monthly_data) = 1" for t
    using attached_single [OF assms(1), of t] attached_single [OF assms(2), of t] by auto
  then show ?thesis by (simp add: filled_data_times concat_singletons)
qed

lemma datetime_range_ticks:
  assumes "interval_micros every = Some i"
  shows "datetime_range start stop every
           = map (\<lambda>k. epoch_micros start + int k * i)
               [0..<nat \<lceil>real_of_int (epoch_micros stop - epoch_micros start) / real_of_int i\<rceil>]"
proof (cases "epoch_micros stop < epoch_micros start")
  case True
  then have "real_of_int (epoch_micros stop - epoch_micros start) / real_of_int i \<le> 0"
    using interval_micros_pos [OF assms] by (simp add: divide_le_0_iff)
  then have "\<lceil>real_of_int (epoch_micros stop - epoch_micros start) / real_of_int i\<rceil> \<le> 0"
    by (simp add: ceiling_le_iff)
  with True show ?thesis by (simp add: datetime_range_def)
next
  case False
  then show ?thesis
    by (simp add: datetime_range_def assms range_step_ticks [OF interval_micros_pos [OF assms]])
qed

text \<open>
  The \<open>k\<close>-th tick of the timeline: \<open>start + k * i\<close> for a sampling interval of fixed
  length \<open>i\<close>, and \<open>start\<close> moved by \<open>k\<close> calendar months for \<^verbatim>\<open>1mo\<close>.
\<close>

definition timeline_tick :: "datetime \<Rightarrow> BinanceDataInterval \<Rightarrow> nat \<Rightarrow> int" where
  "timeline_tick start every k =
     (case interval_micros every of
        Some i \<Rightarrow> epoch_micros start + int k * i
      | None \<Rightarrow> epoch_micros (add_months start k))"

lemma add_months_micros_le:
  assumes "valid_datetime start" "i \<le> j"
  shows "epoch_micros (add_months start i) \<le> epoch_micros (add_months start j)"
proof (cases "i = j")
  case True
  then show ?thesis by simp
next
  case False
  with assms(2) have "i < j" by simp
  from add_months_micros_less [OF valid_datetime_wall_clock [OF assms(1)] this]
  show ?thesis by simp
qed

lemma month_range_ticks:
  assumes "valid_datetime start"
  shows "month_range start e i
           = map (\<lambda>k. epoch_micros (add_months start (i + k)))
               [0..<length (month_range start e i)]
         \<and> (\<forall>k. k < length (month_range start e i)
                 \<longleftrightarrow> epoch_micros (add_months start (i + k)) < e)"
  using assms
proof (induction start e i rule: month_range.induct)
  case (1 start e i)
  show ?case
  proof (cases "epoch_micros (add_months start i) < e")
    case False
    then have m: "month_range start e i = []" by (subst month_range.simps) simp
    have "\<not> epoch_micros (add_months start (i + k)) < e" for k
      using add_months_micros_le [OF "1.prems", of i "i + k"] False by simp
    with m show ?thesis by simp
  next
    case True
    with "1.prems" have c: "valid_datetime start \<and> epoch_micros (add_months start i) < e"
      by simp
    have m: "month_range start e i
        = epoch_micros (add_months start i) # month_range start e (Suc i)"
      using c by (subst month_range.simps) simp
    let ?n = "length (month_range start e (Suc i))"
    from "1.IH" [OF c "1.prems"]
    have ih: "month_range start e (Suc i)
                = map (\<lambda>k. epoch_micros (add_months start (Suc i + k))) [0..<?n]"
      and iff: "\<And>k. k < ?n \<longleftrightarrow> epoch_micros (add_months start (Suc i + k)) < e"
      by blast+
    have "map (\<lambda>k. epoch_micros (add_months start (i + k))) [0..<Suc ?n]
            = epoch_micros (add_months start i)
                # map (\<lambda>k. epoch_micros (add_months start (Suc i + k))) [0..<?n]"
      by (simp add: map_upt_Suc del: upt_Suc)
    with ih have a: "month_range start e i
        = map (\<lambda>k. epoch_micros (add_months start (i + k)))
            [0..<length (month_range start e i)]"
      by (simp add: m del: upt_Suc)
    have b: "k < length (month_range start e i)
               \<longleftrightarrow> epoch_micros (add_months start (i + k)) < e" for k
    proof (cases k)
      case 0
      then show ?thesis using True by (simp add: m)
    next
      case (Suc k')
      then show ?thesis using iff [of k'] by (simp add: m)
    qed
    from a b show ?thesis by blast
  qed
qed

lemma datetime_range_by_tick:
  assumes "valid_datetime start"
  shows "datetime_range start stop every
           = map (timeline_tick start every) [0..<length (datetime_range start stop every)]"
    and "k < length (datetime_range start stop every)
           \<longleftrightarrow> timeline_tick start every k < epoch_micros stop"
proof -
  let ?s = "epoch_micros start" and ?e = "epoch_micros stop"
  have "datetime_range start stop every
           = map (timeline_tick start every) [0..<length (datetime_range start stop every)]
        \<and> (k < length (datetime_range start stop every)
              \<longleftrightarrow> timeline_tick start every k < ?e)"
  proof (cases "interval_micros every")
    case (Some i)
    let ?x = "real_of_int (?e - ?s) / real_of_int i"
    have pos: "0 < i" by (rule interval_micros_pos [OF Some])
    have t: "timeline_tick start every = (\<lambda>k. ?s + int k * i)"
      by (rule ext) (simp add: timeline_tick_def Some)
    have r: "datetime_range start stop every = map (\<lambda>k. ?s + int k * i) [0..<nat \<lceil>?x\<rceil>]"
      by (rule datetime_range_ticks [OF Some])
    then have "length (datetime_range start stop every) = length (map (\<lambda>k. ?s + int k * i) [0..<nat \<lceil>?x\<rceil>])"
      by simp
    then have n: "length (datetime_range start stop every) = nat \<lceil>?x\<rceil>" by simp
    have "k < nat \<lceil>?x\<rceil> \<longleftrightarrow> int k < \<lceil>?x\<rceil>" by (rule zless_nat_eq_int_zless)
    also have "\<dots> \<longleftrightarrow> real_of_int (int k) < ?x" by (rule less_ceiling_iff)
    also have "\<dots> \<longleftrightarrow> real_of_int (int k) * real_of_int i < real_of_int (?e - ?s)"
      using pos by (simp add: pos_less_divide_eq)
    also have "\<dots> \<longleftrightarrow> real_of_int (int k * i) < real_of_int (?e - ?s)" by simp
    also have "\<dots> \<longleftrightarrow> int k * i < ?e - ?s" by (rule of_int_less_iff)
    also have "\<dots> \<longleftrightarrow> ?s + int k * i < ?e" by auto
    finally have "k < nat \<lceil>?x\<rceil> \<longleftrightarrow> ?s + int k * i < ?e" .
    then show ?thesis unfolding n t using r n by simp
  next
    case None
    have t: "timeline_tick start every = (\<lambda>k. epoch_micros (add_months start k))"
      by (rule ext) (simp add: timeline_tick_def None)
    show ?thesis
    proof (cases "?e < ?s")
      case True
      have "\<not> epoch_micros (add_months start k) < ?e"
        using add_months_micros_le [OF assms, of 0 k] True by (simp add: add_months_0 [OF assms])
      then show ?thesis using True by (simp add: datetime_range_def t)
    next
      case False
      then have "datetime_range start stop every = month_range start ?e 0"
        by (simp add: datetime_range_def None)
      then show ?thesis using month_range_ticks [OF assms, of ?e 0] by (simp add: t)
    qed
  qed
  then show "datetime_range start stop every
           = map (timeline_tick start every) [0..<length (datetime_range start stop every)]"
    and "k < length (datetime_range start stop every)
           \<longleftrightarrow> timeline_tick start every k < epoch_micros stop"
    by blast+
qed

text \<open>
  C1, as the code has it. On aware bounds, and with series in which no \<open>date_time\<close>
  occurs twice, \<open>load_ohlcv\<close> returns exactly one row per tick of the timeline below
  \<open>end\<close>, in order, whichever archives are present: the \<open>k\<close>-th row carries the \<open>k\<close>-th
  tick, and there is a \<open>k\<close>-th row exactly when the \<open>k\<close>-th tick lies below \<open>end\<close>. For a
  sampling interval of fixed length \<open>i\<close> that makes \<open>\<lceil>(end - start) / i\<rceil>\<close> rows.
\<close>

theorem load_ohlcv_one_row_per_tick:
  assumes "priv_load_ohlcv root_dir config start stop DAILY = Inr (daily_data, fd)"
    and "priv_load_ohlcv root_dir config start stop MONTHLY = Inr (monthly_data, fm)"
    and "no_duplicates daily_data" "no_duplicates monthly_data"
    and "tzinfo start = Some UTC" "valid_datetime start"
  shows "\<exists>res. load_ohlcv root_dir config start stop = Inr res
           \<and> map date_time (ohlcv res)
               = map (\<lambda>k. Some (timeline_tick start (interval config) k)) [0..<length (ohlcv res)]
           \<and> (\<forall>k. k < length (ohlcv res)
                   \<longleftrightarrow> timeline_tick start (interval config) k < epoch_micros stop)
           \<and> (\<forall>i. interval_micros (interval config) = Some i \<longrightarrow>
                 length (ohlcv res)
                   = nat \<lceil>real_of_int (epoch_micros stop - epoch_micros start) / real_of_int i\<rceil>)"
proof -
  let ?rows = "filled_rows config start stop daily_data monthly_data"
  let ?range = "datetime_range start stop (interval config)"
  define res where "res = \<lparr>ohlcv = map select_ohlcv ?rows,
      ambiguous_entries = filter ambiguous ?rows,
      fetches = map (Pair DAILY) fd @ map (Pair MONTHLY) fm\<rparr>"
  have r: "load_ohlcv root_dir config start stop = Inr res"
    unfolding res_def by (rule load_ohlcv_result [OF assms(1,2,5)])
  have t: "map f_date_time ?rows = ?range"
    by (rule filled_data_times_unique [OF assms(3,4)])
  then have "length (map f_date_time ?rows) = length ?range" by simp
  then have n: "length (ohlcv res) = length ?range" by (simp add: res_def)
  have "map date_time (ohlcv res) = map Some (map f_date_time ?rows)"
    unfolding res_def loaded.select_convs by (rule output_times)
  also have "\<dots> = map Some (map (timeline_tick start (interval config)) [0..<length ?range])"
    unfolding t using datetime_range_by_tick(1) [OF assms(6), of stop "interval config"] by simp
  finally have m: "map date_time (ohlcv res)
      = map (\<lambda>k. Some (timeline_tick start (interval config) k)) [0..<length (ohlcv res)]"
    by (simp add: n)
  have k: "\<forall>k. k < length (ohlcv res)
                   \<longleftrightarrow> timeline_tick start (interval config) k < epoch_micros stop"
    unfolding n using datetime_range_by_tick(2) [OF assms(6)] by blast
  have c: "\<forall>i. interval_micros (interval config) = Some i \<longrightarrow>
                 length (ohlcv res)
                   = nat \<lceil>real_of_int (epoch_micros stop - epoch_micros start) / real_of_int i\<rceil>"
  proof (intro allI impI)
    fix i assume i: "interval_micros (interval config) = Some i"
    have "length ?range = length (map (\<lambda>k. epoch_micros start + int k * i)
        [0..<nat \<lceil>real_of_int (epoch_micros stop - epoch_micros start) / real_of_int i\<rceil>])"
      by (simp only: datetime_range_ticks [OF i])
    then show "length (ohlcv res)
        = nat \<lceil>real_of_int (epoch_micros stop - epoch_micros start) / real_of_int i\<rceil>"
      by (simp add: n)
  qed
  from r m k c show ?thesis by blast
qed

theorem load_ohlcv_one_row_per_tick_witness:
  "priv_load_ohlcv overlapping_archives (btcusdt ONE_DAY) jan_30 feb_1 DAILY
     = Inr (sample_daily, [\<lparr>year = 2020, month = 1, day = 30\<rparr>, \<lparr>year = 2020, month = 1, day = 31\<rparr>])
   \<and> priv_load_ohlcv overlapping_archives (btcusdt ONE_DAY) jan_30 feb_1 MONTHLY
     = Inr (sample_monthly, [\<lparr>year = 2020, month = 1, day = 30\<rparr>])
   \<and> no_duplicates sample_daily \<and> no_duplicates sample_monthly
   \<and> tzinfo jan_30 = Some UTC \<and> valid_datetime jan_30
   \<and> interval_micros (interval (btcusdt ONE_DAY)) = Some 86400000000
   \<and> (\<exists>res. load_ohlcv overlapping_archives (btcusdt ONE_DAY) jan_30 feb_1 = Inr res
          \<and> length (ohlcv res) = 2
          \<and> map date_time (ohlcv res) = [Some 1580342400000000, Some 1580428800000000])"
proof -
  have i: "interval_micros (interval (btcusdt ONE_DAY)) = Some 86400000000"
    by (simp add: btcusdt_def)
  from load_ohlcv_one_row_per_tick
    [OF sample_daily_series sample_monthly_series sample_no_duplicates sample_aware sample_valid]
  obtain res where r: "load_ohlcv overlapping_archives (btcusdt ONE_DAY) jan_30 feb_1 = Inr res"
    and m: "map date_time (ohlcv res)
             = map (\<lambda>k. Some (timeline_tick jan_30 (interval (btcusdt ONE_DAY)) k))
                 [0..<length (ohlcv res)]"
    and n: "\<forall>i. interval_micros (interval (btcusdt ONE_DAY)) = Some i \<longrightarrow>
                 length (ohlcv res)
                   = nat \<lceil>real_of_int (epoch_micros feb_1 - epoch_micros jan_30) / real_of_int i\<rceil>"
    by blast
  from n i have "length (ohlcv res)
      = nat \<lceil>real_of_int (epoch_micros feb_1 - epoch_micros jan_30) / real_of_int 86400000000\<rceil>"
    by blast
  then have n2: "length (ohlcv res) = 2" by (simp add: sample_epochs)
  have "timeline_tick jan_30 (interval (btcusdt ONE_DAY)) k = 1580342400000000 + int k * 86400000000"
    for k by (simp add: timeline_tick_def i sample_epochs)
  with m have "map date_time (ohlcv res) = [Some 1580342400000000, Some 1580428800000000]"
    unfolding n2 by (simp add: upt_rec)
  with r n2 have "\<exists>res. load_ohlcv overlapping_archives (btcusdt ONE_DAY) jan_30 feb_1 = Inr res
          \<and> length (ohlcv res) = 2
          \<and> map date_time (ohlcv res) = [Some 1580342400000000, Some 1580428800000000]"
    by - (rule exI [of _ res], simp)
  with sample_daily_series sample_monthly_series sample_no_duplicates sample_aware sample_valid i
  show ?thesis by (intro conjI)
qed

text \<open>With a row held twice in the Daily archive the tick of that row comes out twice.\<close>

theorem load_ohlcv_one_row_per_tick_counterexample:
  "dt_lt jan_30 jan_31 = Inr True
   \<and> interval_micros (interval (btcusdt ONE_DAY)) = Some 86400000000
   \<and> nat \<lceil>real_of_int (epoch_micros jan_31 - epoch_micros jan_30)
              / real_of_int 86400000000\<rceil> = 1
   \<and> map_sum id (\<lambda>res. length (ohlcv res))
        (load_ohlcv repeating_archives (btcusdt ONE_DAY) jan_30 jan_31) = Inr 2"
proof -
  have "map f_date_time (filled_rows (btcusdt ONE_DAY) jan_30 jan_31
          (sample_daily @ sample_daily) [])
        = [1580342400000000, 1580342400000000]"
    by (simp add: filled_data_times btcusdt_def datetime_range_def sample_epochs
        range_step.simps attached_def matching_def sample_daily_def candle_def
        binance_ohlcv.truncate_def)
  then have "length (map f_date_time (filled_rows (btcusdt ONE_DAY) jan_30 jan_31
          (sample_daily @ sample_daily) [])) = 2" by simp
  then have "length (filled_rows (btcusdt ONE_DAY) jan_30
          jan_31 (sample_daily @ sample_daily) []) = 2" by simp
  then have "map_sum id (\<lambda>res. length (ohlcv res))
        (load_ohlcv repeating_archives (btcusdt ONE_DAY) jan_30 jan_31) = Inr 2"
    unfolding load_ohlcv_result [OF repeating_daily_series repeating_monthly_series sample_aware]
    by simp
  moreover have "dt_lt jan_30 jan_31 = Inr True"
    by (simp add: dt_lt_def dt_tuple_def utc_midnight_def jan_30_def jan_31_def)
  moreover have "interval_micros (interval (btcusdt ONE_DAY)) = Some 86400000000"
    by (simp add: btcusdt_def)
  moreover have "nat \<lceil>real_of_int (epoch_micros jan_31 - epoch_micros jan_30)
      / real_of_int 86400000000\<rceil> = 1"
    by (simp add: sample_epochs)
  ultimately show ?thesis by (intro conjI)
qed

section \<open>Order of the output\<close>

lemma sorted_concat_replicate:
  "sorted_wrt (<) ts \<Longrightarrow> sorted (concat (map (\<lambda>t. replicate (n t) t) ts))" for ts :: "int list"
proof (induction ts)
  case Nil
  then show ?case by simp
next
  case (Cons t ts)
  have "set (concat (map (\<lambda>t. replicate (n t) t) ts)) \<subseteq> set ts" by auto
  with Cons.prems have "\<forall>y\<in>set (concat (map (\<lambda>t. replicate (n t) t) ts)). t \<le> y" by auto
  moreover have "sorted (replicate (n t) t)" by (simp add: sorted_replicate)
  ultimately show ?case using Cons by (simp add: sorted_append)
qed

text \<open>The rows a chunk contributes to a series: those of its archive, none where absent.\<close>

definition chunk_rows ::
  "'v store \<Rightarrow> BinanceDataConfig \<Rightarrow> BinanceDataGranularity \<Rightarrow> date \<Rightarrow> 'v binance_ohlcv list" where
  "chunk_rows root_dir config g d =
     (case priv_load_ohlcv_file root_dir config d g of
        Inr (Some rows) \<Rightarrow> rows
      | _ \<Rightarrow> [])"

lemma loop_concatenates:
  "priv_load_ohlcv_loop root_dir config start stop g secs c (chunks, fetched)
     = Inr (chunks', fetched') \<Longrightarrow>
   concat chunks = concat (map (chunk_rows root_dir config g) fetched) \<Longrightarrow>
   concat chunks' = concat (map (chunk_rows root_dir config g) fetched')"
proof (induction root_dir config start stop g secs c "(chunks, fetched)"
    arbitrary: chunks fetched rule: priv_load_ohlcv_loop.induct)
  case (1 root_dir config start stop g secs c chunks fetched)
  from "1.prems"(1) obtain continue where lt: "dt_lt c stop = Inr continue"
    by (subst (asm) priv_load_ohlcv_loop.simps) (auto split: sum.splits)
  show ?case
  proof (cases continue)
    case False
    with "1.prems"(1) lt have "chunks' = chunks" "fetched' = fetched"
      by (subst (asm) priv_load_ohlcv_loop.simps, simp)+
    with "1.prems"(2) show ?thesis by simp
  next
    case True
    from "1.prems"(1) lt True obtain chunk where
      f: "priv_load_ohlcv_file root_dir config (dt_date c) g = Inr chunk"
      by (subst (asm) priv_load_ohlcv_loop.simps) (auto split: sum.splits)
    from "1.prems"(1) lt True f obtain n where n: "next_chunk g c = Inr n"
      by (subst (asm) priv_load_ohlcv_loop.simps) (auto split: sum.splits)
    from "1.prems"(1) lt True f n obtain loaded where l: "dt_sub n start = Inr loaded"
      by (subst (asm) priv_load_ohlcv_loop.simps) (auto split: sum.splits)
    from "1.prems"(1) lt True f n l obtain completed
      where t: "truediv (total_seconds loaded) secs = Inr completed"
      by (subst (asm) priv_load_ohlcv_loop.simps) (auto split: sum.splits)
    let ?chunks = "case chunk of None \<Rightarrow> chunks | Some c \<Rightarrow> chunks @ [c]"
    from "1.prems"(1) lt True f n l t
    have r: "priv_load_ohlcv_loop root_dir config start stop g secs n
               (?chunks, fetched @ [dt_date c]) = Inr (chunks', fetched')"
      by (subst (asm) priv_load_ohlcv_loop.simps) simp
    have "concat ?chunks = concat (map (chunk_rows root_dir config g) (fetched @ [dt_date c]))"
      using "1.prems"(2) f by (cases chunk) (simp_all add: chunk_rows_def)
    from "1.hyps" [OF lt _ f n l t r this] True show ?thesis by simp
  qed
qed

lemma priv_load_ohlcv_concatenates:
  assumes "priv_load_ohlcv root_dir config start stop g = Inr (rows, fetched)"
  shows "rows = concat (map (chunk_rows root_dir config g) fetched)"
proof -
  from assms obtain delta chunks where
    l: "priv_load_ohlcv_loop root_dir config start stop g (total_seconds delta) start ([], [])
          = Inr (chunks, fetched)"
    and r: "rows = (if length chunks = 0 then [] else concat chunks)"
    by (auto simp: priv_load_ohlcv_def split: sum.splits if_splits)
  from loop_concatenates [OF l] have "concat chunks = concat (map (chunk_rows root_dir config g) fetched)"
    by simp
  with r show ?thesis by auto
qed

text \<open>
  C6, as the code has it. The series of a granularity is the concatenation of the rows
  of the chunks the loop visited, in that order and without deduplication, so it repeats a
  \<open>date_time\<close> that the archives repeat. On aware bounds the \<open>date_time\<close> column of the
  output is ascending for any archives; it is strictly ascending, with no duplicates, when
  no \<open>date_time\<close> occurs twice within the Daily or within the Monthly series.
\<close>

theorem load_ohlcv_date_time_ascending:
  assumes "priv_load_ohlcv root_dir config start stop DAILY = Inr (daily_data, fd)"
    and "priv_load_ohlcv root_dir config start stop MONTHLY = Inr (monthly_data, fm)"
    and "tzinfo start = Some UTC"
  shows "daily_data = concat (map (chunk_rows root_dir config DAILY) fd)
         \<and> monthly_data = concat (map (chunk_rows root_dir config MONTHLY) fm)
         \<and> (\<exists>res ts. load_ohlcv root_dir config start stop = Inr res
               \<and> map date_time (ohlcv res) = map Some ts
               \<and> sorted ts
               \<and> (no_duplicates daily_data \<and> no_duplicates monthly_data
                    \<longrightarrow> sorted_wrt (<) ts \<and> distinct ts))"
proof -
  let ?rows = "filled_rows config start stop daily_data monthly_data"
  let ?ts = "map f_date_time ?rows"
  have s: "sorted ?ts"
    unfolding filled_data_times by (rule sorted_concat_replicate [OF datetime_range_sorted])
  have u: "sorted_wrt (<) ?ts \<and> distinct ?ts"
    if "no_duplicates daily_data \<and> no_duplicates monthly_data"
  proof -
    from that have "?ts = datetime_range start stop (interval config)"
      by (simp add: filled_data_times_unique)
    then show ?thesis
      using datetime_range_sorted [of start stop "interval config"]
      by (simp add: strict_sorted_iff)
  qed
  define res where "res = \<lparr>ohlcv = map select_ohlcv ?rows,
      ambiguous_entries = filter ambiguous ?rows,
      fetches = map (Pair DAILY) fd @ map (Pair MONTHLY) fm\<rparr>"
  have r: "load_ohlcv root_dir config start stop = Inr res"
    unfolding res_def by (rule load_ohlcv_result [OF assms])
  have o: "map date_time (ohlcv res) = map Some ?ts"
    unfolding res_def loaded.select_convs by (rule output_times)
  from r o s u have "\<exists>res ts. load_ohlcv root_dir config start stop = Inr res
               \<and> map date_time (ohlcv res) = map Some ts
               \<and> sorted ts
               \<and> (no_duplicates daily_data \<and> no_duplicates monthly_data
                    \<longrightarrow> sorted_wrt (<) ts \<and> distinct ts)"
    by blast
  with priv_load_ohlcv_concatenates [OF assms(1)] priv_load_ohlcv_concatenates [OF assms(2)]
  show ?thesis by (intro conjI)
qed

theorem load_ohlcv_date_time_ascending_witness:
  "priv_load_ohlcv overlapping_archives (btcusdt ONE_DAY) jan_30 feb_1 DAILY
     = Inr (sample_daily, [\<lparr>year = 2020, month = 1, day = 30\<rparr>, \<lparr>year = 2020, month = 1, day = 31\<rparr>])
   \<and> priv_load_ohlcv overlapping_archives (btcusdt ONE_DAY) jan_30 feb_1 MONTHLY
     = Inr (sample_monthly, [\<lparr>year = 2020, month = 1, day = 30\<rparr>])
   \<and> tzinfo jan_30 = Some UTC
   \<and> no_duplicates sample_daily \<and> no_duplicates sample_monthly
   \<and> sample_daily
       = concat (map (chunk_rows overlapping_archives (btcusdt ONE_DAY) DAILY)
           [\<lparr>year = 2020, month = 1, day = 30\<rparr>, \<lparr>year = 2020, month = 1, day = 31\<rparr>])
   \<and> (\<exists>res ts. load_ohlcv overlapping_archives (btcusdt ONE_DAY) jan_30 feb_1 = Inr res
          \<and> map date_time (ohlcv res) = map Some ts \<and> sorted ts
          \<and> sorted_wrt (<) ts \<and> distinct ts)"
proof -
  note t = load_ohlcv_date_time_ascending [OF sample_daily_series sample_monthly_series sample_aware]
  from t sample_no_duplicates
  have "\<exists>res ts. load_ohlcv overlapping_archives (btcusdt ONE_DAY) jan_30 feb_1 = Inr res
          \<and> map date_time (ohlcv res) = map Some ts \<and> sorted ts
          \<and> sorted_wrt (<) ts \<and> distinct ts"
    by blast
  moreover from t have "sample_daily
       = concat (map (chunk_rows overlapping_archives (btcusdt ONE_DAY) DAILY)
           [\<lparr>year = 2020, month = 1, day = 30\<rparr>, \<lparr>year = 2020, month = 1, day = 31\<rparr>])"
    by blast
  ultimately show ?thesis
    using sample_daily_series sample_monthly_series sample_no_duplicates sample_aware
    by (intro conjI)
qed

text \<open>A Daily archive that holds a row twice: the series and the output both repeat it.\<close>

theorem load_ohlcv_date_time_ascending_counterexample:
  "map_sum id (\<lambda>(rows, fetched). map date_time rows)
      (priv_load_ohlcv repeating_archives (btcusdt ONE_DAY) jan_30 jan_31 DAILY)
     = Inr [Some 1580342400000000, Some 1580342400000000]
   \<and> map_sum id (\<lambda>res. map date_time (ohlcv res))
      (load_ohlcv repeating_archives (btcusdt ONE_DAY) jan_30 jan_31)
     = Inr [Some 1580342400000000, Some 1580342400000000]"
proof -
  have "map f_date_time (filled_rows (btcusdt ONE_DAY) jan_30 jan_31
          (sample_daily @ sample_daily) [])
        = [1580342400000000, 1580342400000000]"
    by (simp add: filled_data_times btcusdt_def datetime_range_def sample_epochs
        range_step.simps attached_def matching_def sample_daily_def candle_def
        binance_ohlcv.truncate_def)
  then have "map_sum id (\<lambda>res. map date_time (ohlcv res))
      (load_ohlcv repeating_archives (btcusdt ONE_DAY) jan_30 jan_31)
     = Inr [Some 1580342400000000, Some 1580342400000000]"
    unfolding load_ohlcv_result [OF repeating_daily_series repeating_monthly_series sample_aware]
    by (simp add: output_times del: map_map)
  moreover have "map_sum id (\<lambda>(rows, fetched). map date_time rows)
      (priv_load_ohlcv repeating_archives (btcusdt ONE_DAY) jan_30 jan_31 DAILY)
     = Inr [Some 1580342400000000, Some 1580342400000000]"
    unfolding repeating_daily_series
    by (simp add: sample_daily_def candle_def binance_ohlcv.truncate_def)
  ultimately show ?thesis by (intro conjI)
qed

section \<open>Coalesced values\<close>

lemma filled_data_rows:
  "r \<in> set (filled_rows config start stop daily_data monthly_data) \<longleftrightarrow>
     (\<exists>t d m. r = filled t d m \<and> t \<in> set (datetime_range start stop (interval config))
           \<and> d \<in> set (attached t daily_data) \<and> m \<in> set (attached t monthly_data))"
  unfolding filled_data_eq by auto

lemma attached_iff:
  "x \<in> set (attached t rows) \<longleftrightarrow>
     (case x of None \<Rightarrow> matching t rows = [] | Some r \<Rightarrow> r \<in> set (matching t rows))"
  by (cases "matching t rows") (auto simp: attached_def split: option.splits)

lemma matching_iff: "r \<in> set (matching t rows) \<longleftrightarrow> r \<in> set rows \<and> date_time r = Some t"
  by (auto simp: matching_def)

text \<open>
  What a series gives at a timestamp: one of its rows with that \<open>date_time\<close>, or nothing
  when it has no such row.
\<close>

definition joined :: "int \<Rightarrow> 'v binance_ohlcv list \<Rightarrow> 'v binance_ohlcv option \<Rightarrow> bool" where
  "joined t series x \<longleftrightarrow>
     (case x of
        None \<Rightarrow> \<forall>r\<in>set series. date_time r \<noteq> Some t
      | Some r \<Rightarrow> r \<in> set series \<and> date_time r = Some t)"

text \<open>
  A row whose five fields are each the Daily value when that is not null, else the
  Monthly value, else null.
\<close>

definition coalesced ::
  "'v binance_ohlcv \<Rightarrow> 'v binance_ohlcv option \<Rightarrow> 'v binance_ohlcv option \<Rightarrow> bool" where
  "coalesced row d m \<longleftrightarrow>
     open_v row = (if col open_v d \<noteq> None then col open_v d else col open_v m)
     \<and> high row = (if col high d \<noteq> None then col high d else col high m)
     \<and> low row = (if col low d \<noteq> None then col low d else col low m)
     \<and> close row = (if col close d \<noteq> None then col close d else col close m)
     \<and> volume row = (if col volume d \<noteq> None then col volume d else col volume m)"

lemma attached_joined: "x \<in> set (attached t rows) \<longleftrightarrow> joined t rows x"
  by (auto simp: attached_iff joined_def matching_def filter_empty_conv split: option.splits)

lemma select_filled_coalesced: "coalesced (select_ohlcv (filled t d m)) d m"
  by (auto simp: coalesced_def select_ohlcv_def filled_def coalesce_def split: option.splits)

lemma select_filled_time: "date_time (select_ohlcv (filled t d m)) = Some t"
  by (simp add: select_ohlcv_def filled_def)

text \<open>
  C2. On every call that gets as far as the output, the rows of the output are rows of
  the timeline: every row stands for a tick \<open>t\<close>, a Daily row \<open>d\<close> and a Monthly row \<open>m\<close>
  joined to it (\<open>None\<close> where the series has no row at \<open>t\<close>), and every tick with what
  the two series give at it has its row. In each such row each of the five fields is the
  Daily value when that is not null, else the Monthly value, else null; where only one
  source has a row at \<open>t\<close>, the five fields are those of that row.
\<close>

theorem load_ohlcv_coalesces:
  assumes "priv_load_ohlcv root_dir config start stop DAILY = Inr (daily_data, fd)"
    and "priv_load_ohlcv root_dir config start stop MONTHLY = Inr (monthly_data, fm)"
    and "tzinfo start = Some UTC"
  shows "\<exists>res. load_ohlcv root_dir config start stop = Inr res
     \<and> (\<forall>row\<in>set (ohlcv res). \<exists>t d m.
           t \<in> set (datetime_range start stop (interval config))
           \<and> joined t daily_data d \<and> joined t monthly_data m
           \<and> date_time row = Some t \<and> coalesced row d m
           \<and> (\<forall>r. d = None \<and> m = Some r \<longrightarrow>
                 open_v row = open_v r \<and> high row = high r \<and> low row = low r
                 \<and> close row = close r \<and> volume row = volume r)
           \<and> (\<forall>r. d = Some r \<and> m = None \<longrightarrow>
                 open_v row = open_v r \<and> high row = high r \<and> low row = low r
                 \<and> close row = close r \<and> volume row = volume r))
     \<and> (\<forall>t\<in>set (datetime_range start stop (interval config)). \<forall>d m.
           joined t daily_data d \<and> joined t monthly_data m \<longrightarrow>
             (\<exists>row\<in>set (ohlcv res). date_time row = Some t \<and> coalesced row d m))"
proof -
  let ?rows = "filled_rows config start stop daily_data monthly_data"
  define res where "res = \<lparr>ohlcv = map select_ohlcv ?rows,
      ambiguous_entries = filter ambiguous ?rows,
      fetches = map (Pair DAILY) fd @ map (Pair MONTHLY) fm\<rparr>"
  have r: "load_ohlcv root_dir config start stop = Inr res"
    unfolding res_def by (rule load_ohlcv_result [OF assms])
  have o: "set (ohlcv res) = select_ohlcv ` set ?rows" by (simp add: res_def)
  have sound: "\<exists>t d m.
           t \<in> set (datetime_range start stop (interval config))
           \<and> joined t daily_data d \<and> joined t monthly_data m
           \<and> date_time row = Some t \<and> coalesced row d m
           \<and> (\<forall>r. d = None \<and> m = Some r \<longrightarrow>
                 open_v row = open_v r \<and> high row = high r \<and> low row = low r
                 \<and> close row = close r \<and> volume row = volume r)
           \<and> (\<forall>r. d = Some r \<and> m = None \<longrightarrow>
                 open_v row = open_v r \<and> high row = high r \<and> low row = low r
                 \<and> close row = close r \<and> volume row = volume r)"
    if "row \<in> set (ohlcv res)" for row
  proof -
    from that obtain t d m where row: "row = select_ohlcv (filled t d m)"
      and t: "t \<in> set (datetime_range start stop (interval config))"
      and d: "joined t daily_data d" and m: "joined t monthly_data m"
      unfolding o by (auto simp: filled_data_rows attached_joined)
    have c: "coalesced row d m" unfolding row by (rule select_filled_coalesced)
    have dt: "date_time row = Some t" unfolding row by (rule select_filled_time)
    have only_m: "open_v row = open_v r \<and> high row = high r \<and> low row = low r
                 \<and> close row = close r \<and> volume row = volume r"
      if "d = None \<and> m = Some r" for r
      using c that by (simp add: coalesced_def col_def)
    have only_d: "open_v row = open_v r \<and> high row = high r \<and> low row = low r
                 \<and> close row = close r \<and> volume row = volume r"
      if "d = Some r \<and> m = None" for r
      using c that by (auto simp: coalesced_def col_def)
    from t d m dt c only_m only_d show ?thesis by blast
  qed
  have complete: "\<exists>row\<in>set (ohlcv res). date_time row = Some t \<and> coalesced row d m"
    if "t \<in> set (datetime_range start stop (interval config))"
      and "joined t daily_data d \<and> joined t monthly_data m" for t d m
  proof -
    from that have "filled t d m \<in> set ?rows"
      by (auto simp: filled_data_rows attached_joined)
    then have "select_ohlcv (filled t d m) \<in> set (ohlcv res)" unfolding o by (rule imageI)
    then show ?thesis using select_filled_time select_filled_coalesced by blast
  qed
  from r sound complete show ?thesis by blast
qed

theorem load_ohlcv_coalesces_witness:
  "priv_load_ohlcv overlapping_archives (btcusdt ONE_DAY) jan_30 feb_1 DAILY
     = Inr (sample_daily, [\<lparr>year = 2020, month = 1, day = 30\<rparr>, \<lparr>year = 2020, month = 1, day = 31\<rparr>])
   \<and> priv_load_ohlcv overlapping_archives (btcusdt ONE_DAY) jan_30 feb_1 MONTHLY
     = Inr (sample_monthly, [\<lparr>year = 2020, month = 1, day = 30\<rparr>])
   \<and> tzinfo jan_30 = Some UTC
   \<and> (\<exists>res. load_ohlcv overlapping_archives (btcusdt ONE_DAY) jan_30 feb_1 = Inr res
     \<and> (\<forall>row\<in>set (ohlcv res). \<exists>t d m.
           t \<in> set (datetime_range jan_30 feb_1 (interval (btcusdt ONE_DAY)))
           \<and> joined t sample_daily d \<and> joined t sample_monthly m
           \<and> date_time row = Some t \<and> coalesced row d m
           \<and> (\<forall>r. d = None \<and> m = Some r \<longrightarrow>
                 open_v row = open_v r \<and> high row = high r \<and> low row = low r
                 \<and> close row = close r \<and> volume row = volume r)
           \<and> (\<forall>r. d = Some r \<and> m = None \<longrightarrow>
                 open_v row = open_v r \<and> high row = high r \<and> low row = low r
                 \<and> close row = close r \<and> volume row = volume r))
     \<and> (\<forall>t\<in>set (datetime_range jan_30 feb_1 (interval (btcusdt ONE_DAY))). \<forall>d m.
           joined t sample_daily d \<and> joined t sample_monthly m \<longrightarrow>
             (\<exists>row\<in>set (ohlcv res). date_time row = Some t \<and> coalesced row d m)))"
  using load_ohlcv_coalesces [OF sample_daily_series sample_monthly_series sample_aware]
    sample_daily_series sample_monthly_series sample_aware
  by (intro conjI)

section \<open>Ambiguous entries\<close>

datatype core_field = Open | High | Low | Close | Volume

fun core :: "core_field \<Rightarrow> 'v binance_ohlcv \<Rightarrow> 'v option" where
  "core Open r = open_v r"
| "core High r = high r"
| "core Low r = low r"
| "core Close r = close r"
| "core Volume r = volume r"

text \<open>The core fields in which two rows differ; null equals null and nothing else.\<close>

definition differing :: "'v binance_ohlcv \<Rightarrow> 'v binance_ohlcv \<Rightarrow> core_field list" where
  "differing d m = filter (\<lambda>f. core f d \<noteq> core f m) [Open, High, Low, Close, Volume]"

text \<open>
  The matches of the two series on the timeline that disagree: a tick, a Daily row and
  a Monthly row at that tick, the two differing in at least one core field.
\<close>

definition conflicts ::
  "int list \<Rightarrow> 'v binance_ohlcv list \<Rightarrow> 'v binance_ohlcv list
     \<Rightarrow> (int \<times> 'v binance_ohlcv \<times> 'v binance_ohlcv) list" where
  "conflicts ts daily_data monthly_data =
     concat (map (\<lambda>t. concat (map (\<lambda>d. map (\<lambda>m. (t, d, m))
                                           (filter (\<lambda>m. differing d m \<noteq> [])
                                              (matching t monthly_data)))
                                  (matching t daily_data))) ts)"

text \<open>
  The count the specification states: one conflict for each timestamp and each core
  field in which a Daily and a Monthly row at that timestamp differ.
\<close>

definition spec_conflict_pairs ::
  "int list \<Rightarrow> 'v binance_ohlcv list \<Rightarrow> 'v binance_ohlcv list \<Rightarrow> (int \<times> core_field) list" where
  "spec_conflict_pairs ts daily_data monthly_data =
     concat (map (\<lambda>t. concat (map (\<lambda>d. concat (map (\<lambda>m. map (Pair t) (differing d m))
                                                    (matching t monthly_data)))
                                  (matching t daily_data))) ts)"

lemma ambiguous_filled:
  "ambiguous (filled t d m) \<longleftrightarrow>
     (\<exists>x y. d = Some x \<and> m = Some y \<and> date_time x \<noteq> None \<and> date_time y \<noteq> None
            \<and> differing x y \<noteq> [])"
  by (cases d; cases m)
     (auto simp: ambiguous_def filled_def col_def ne_missing_def differing_def)

lemma ambiguous_unmatched_daily: "filter ambiguous (map (filled t None) ms) = []"
  by (simp add: filter_empty_conv ambiguous_filled)

lemma ambiguous_group_monthly:
  assumes "date_time d = Some t"
  shows "filter ambiguous (map (filled t (Some d)) (attached t monthly_data))
           = map (\<lambda>m. filled t (Some d) (Some m))
               (filter (\<lambda>m. differing d m \<noteq> []) (matching t monthly_data))"
proof (cases "matching t monthly_data")
  case Nil
  then show ?thesis by (simp add: attached_def ambiguous_filled)
next
  case (Cons a as)
  have "filter ambiguous (map (filled t (Some d)) (map Some (matching t monthly_data)))
          = map (\<lambda>m. filled t (Some d) (Some m))
              (filter (\<lambda>m. differing d m \<noteq> []) (matching t monthly_data))"
    unfolding map_map filter_map comp_def
    by (rule arg_cong [where f = "map _"], rule filter_cong [OF refl])
       (simp add: ambiguous_filled assms matching_iff)
  then show ?thesis by (simp add: attached_def Cons)
qed

lemma ambiguous_group:
  "filter ambiguous (concat (map (\<lambda>d. map (\<lambda>m. filled t d m) (attached t monthly_data))
                                  (attached t daily_data)))
     = concat (map (\<lambda>d. map (\<lambda>m. filled t (Some d) (Some m))
                            (filter (\<lambda>m. differing d m \<noteq> []) (matching t monthly_data)))
                   (matching t daily_data))"
proof (cases "matching t daily_data")
  case Nil
  then show ?thesis by (simp add: attached_def ambiguous_unmatched_daily)
next
  case (Cons a as)
  have "filter ambiguous (concat (map (\<lambda>d. map (filled t d) (attached t monthly_data))
                                  (map Some (matching t daily_data))))
     = concat (map (\<lambda>d. map (\<lambda>m. filled t (Some d) (Some m))
                            (filter (\<lambda>m. differing d m \<noteq> []) (matching t monthly_data)))
                   (matching t daily_data))"
    unfolding filter_concat map_map comp_def
    by (rule arg_cong [where f = concat], rule map_cong [OF refl])
       (simp add: ambiguous_group_monthly matching_iff)
  then show ?thesis by (simp add: attached_def Cons)
qed

lemma ambiguous_groups:
  "filter ambiguous
     (concat (map (\<lambda>t. concat (map (\<lambda>d. map (\<lambda>m. filled t d m) (attached t monthly_data))
                                    (attached t daily_data))) ts))
     = map (\<lambda>(t, d, m). filled t (Some d) (Some m)) (conflicts ts daily_data monthly_data)"
proof (induction ts)
  case Nil
  show ?case by (simp add: conflicts_def)
next
  case (Cons t ts)
  let ?G = "\<lambda>t. concat (map (\<lambda>d. map (\<lambda>m. filled t d m) (attached t monthly_data))
                                    (attached t daily_data))"
  let ?C = "\<lambda>t. concat (map (\<lambda>d. map (\<lambda>m. (t, d, m))
                                           (filter (\<lambda>m. differing d m \<noteq> [])
                                              (matching t monthly_data)))
                                  (matching t daily_data))"
  let ?f = "\<lambda>(t, d, m). filled t (Some d) (Some m)"
  have h: "filter ambiguous (?G t) = map ?f (?C t)"
    unfolding ambiguous_group by (simp add: map_concat comp_def)
  have "filter ambiguous (concat (map ?G (t # ts)))
          = filter ambiguous (?G t) @ filter ambiguous (concat (map ?G ts))"
    by (simp only: list.map concat.simps filter_append)
  also have "\<dots> = map ?f (?C t) @ map ?f (conflicts ts daily_data monthly_data)"
    by (simp only: h Cons.IH)
  also have "\<dots> = map ?f (conflicts (t # ts) daily_data monthly_data)"
    by (simp only: conflicts_def list.map concat.simps map_append)
  finally show ?case .
qed

lemma ambiguous_filled_data:
  "filter ambiguous (filled_rows config start stop daily_data monthly_data)
     = map (\<lambda>(t, d, m). filled t (Some d) (Some m))
         (conflicts (datetime_range start stop (interval config)) daily_data monthly_data)"
  unfolding filled_data_eq by (rule ambiguous_groups)

text \<open>
  C3, as the code has it. On every call that gets as far as the report (aware bounds,
  both series built), the ambiguous entries are the rows of the joined frame in which a Daily and a Monthly row met at a tick and differ in at least one of the five
  core fields (null equal to null, different from any value); each such row is reported
  once, however many of its fields differ, and a tick that only one source has a row
  for gives none. Their number is the number of such meetings.
\<close>

theorem load_ohlcv_ambiguous_entries:
  assumes "priv_load_ohlcv root_dir config start stop DAILY = Inr (daily_data, fd)"
    and "priv_load_ohlcv root_dir config start stop MONTHLY = Inr (monthly_data, fm)"
    and "tzinfo start = Some UTC"
  shows "\<exists>res. load_ohlcv root_dir config start stop = Inr res
           \<and> ambiguous_entries res
               = map (\<lambda>(t, d, m). filled t (Some d) (Some m))
                   (conflicts (datetime_range start stop (interval config))
                      daily_data monthly_data)
           \<and> length (ambiguous_entries res)
               = length (conflicts (datetime_range start stop (interval config))
                           daily_data monthly_data)"
  unfolding load_ohlcv_result [OF assms] by (simp add: ambiguous_filled_data)

lemma sample_ticks:
  "datetime_range jan_30 feb_1 (interval (btcusdt ONE_DAY))
     = [1580342400000000, 1580428800000000]"
  by (simp add: datetime_range_def btcusdt_def sample_epochs range_step.simps)

lemma sample_conflicts:
  "conflicts [1580342400000000, 1580428800000000] sample_daily sample_monthly
     = [(1580342400000000, hd sample_daily, hd sample_monthly)]"
  by (simp add: conflicts_def matching_def differing_def sample_daily_def sample_monthly_def
      candle_def binance_ohlcv.truncate_def)

theorem load_ohlcv_ambiguous_entries_witness:
  "priv_load_ohlcv overlapping_archives (btcusdt ONE_DAY) jan_30 feb_1 DAILY
     = Inr (sample_daily, [\<lparr>year = 2020, month = 1, day = 30\<rparr>, \<lparr>year = 2020, month = 1, day = 31\<rparr>])
   \<and> priv_load_ohlcv overlapping_archives (btcusdt ONE_DAY) jan_30 feb_1 MONTHLY
     = Inr (sample_monthly, [\<lparr>year = 2020, month = 1, day = 30\<rparr>])
   \<and> tzinfo jan_30 = Some UTC
   \<and> (\<exists>res. load_ohlcv overlapping_archives (btcusdt ONE_DAY) jan_30 feb_1 = Inr res
          \<and> ambiguous_entries res
              = [filled 1580342400000000 (Some (hd sample_daily)) (Some (hd sample_monthly))]
          \<and> length (ambiguous_entries res) = 1)"
  using load_ohlcv_ambiguous_entries [OF sample_daily_series sample_monthly_series sample_aware]
    sample_daily_series sample_monthly_series sample_aware
  unfolding sample_ticks sample_conflicts
  by simp

text \<open>
  One ambiguous entry is reported where the two sources differ in two fields of one
  timestamp, which the specification counts as two conflicts.
\<close>

theorem load_ohlcv_conflict_count_counterexample:
  "map_sum id (\<lambda>res. length (ambiguous_entries res))
      (load_ohlcv overlapping_archives (btcusdt ONE_DAY) jan_30 feb_1) = Inr 1
   \<and> spec_conflict_pairs (datetime_range jan_30 feb_1 (interval (btcusdt ONE_DAY)))
        sample_daily sample_monthly
      = [(1580342400000000, Open), (1580342400000000, High)]"
proof -
  have "map_sum id (\<lambda>res. length (ambiguous_entries res))
      (load_ohlcv overlapping_archives (btcusdt ONE_DAY) jan_30 feb_1) = Inr 1"
    unfolding load_ohlcv_result [OF sample_daily_series sample_monthly_series sample_aware]
    by (simp add: ambiguous_filled_data sample_ticks sample_conflicts)
  moreover have "spec_conflict_pairs (datetime_range jan_30 feb_1 (interval (btcusdt ONE_DAY)))
        sample_daily sample_monthly
      = [(1580342400000000, Open), (1580342400000000, High)]"
    unfolding sample_ticks
    by (simp add: spec_conflict_pairs_def matching_def differing_def sample_daily_def
        sample_monthly_def candle_def binance_ohlcv.truncate_def)
  ultimately show ?thesis by (intro conjI)
qed

section \<open>Decoding of the time columns\<close>

text \<open>
  C4. The rows read from an archive carry, in both \<open>date_time\<close> and \<open>close_date_time\<close>,
  the raw integer decoded in one unit, fixed by the instrument type and the date of the
  chunk: microseconds for Spot from 2025-01-01 on, milliseconds for Spot before that day
  and for every other instrument type on any day.
\<close>

theorem priv_load_ohlcv_file_decodes:
  assumes "priv_load_ohlcv_file root_dir config d g = Inr (Some rows)"
  shows "\<exists>path raw_data u.
           priv_find_file_path root_dir config d g = Some path
           \<and> root_dir path = Some (Csv raw_data)
           \<and> length rows = length raw_data
           \<and> (\<forall>k<length raw_data.
                 date_time (rows ! k) = from_epoch date_time u (raw_data ! k)
                 \<and> close_date_time (rows ! k) = from_epoch close_date_time u (raw_data ! k))
           \<and> (instrument_type config = SPOT \<and> (2025, 1, 1) \<le> date_tuple d \<longrightarrow> u = Us)
           \<and> (instrument_type config = SPOT \<and> date_tuple d < (2025, 1, 1) \<longrightarrow> u = Ms)
           \<and> (instrument_type config \<noteq> SPOT \<longrightarrow> u = Ms)"
proof -
  from assms obtain path raw_data where p: "priv_find_file_path root_dir config d g = Some path"
    and r: "root_dir path = Some (Csv raw_data)"
    and rows: "rows = map (\<lambda>row. binance_ohlcv.truncate
                 (row\<lparr>date_time := priv_from_unix config date_time d row,
                      close_date_time := priv_from_unix config close_date_time d row\<rparr>)) raw_data"
    by (auto simp: priv_load_ohlcv_file_def split: option.splits archive.splits)
  define u where "u = (if instrument_type config = SPOT \<and> (2025, 1, 1) \<le> date_tuple d
                       then Us else Ms)"
  have fu: "priv_from_unix config column d = from_epoch column u" for column :: "'r \<Rightarrow> int option"
    by (simp add: priv_from_unix_def u_def)
  have k: "date_time (rows ! k) = from_epoch date_time u (raw_data ! k)
           \<and> close_date_time (rows ! k) = from_epoch close_date_time u (raw_data ! k)"
    if "k < length raw_data" for k
    using that by (simp add: rows fu binance_ohlcv.truncate_def from_epoch_def)
  have u1: "instrument_type config = SPOT \<and> (2025, 1, 1) \<le> date_tuple d \<longrightarrow> u = Us"
    by (simp add: u_def)
  have u2: "instrument_type config = SPOT \<and> date_tuple d < (2025, 1, 1) \<longrightarrow> u = Ms"
    unfolding u_def by (simp add: not_le [symmetric])
  have u3: "instrument_type config \<noteq> SPOT \<longrightarrow> u = Ms"
    by (simp add: u_def)
  have l: "length rows = length raw_data" by (simp add: rows)
  from p r l k u1 u2 u3 show ?thesis by blast
qed


definition jan_30_date :: date where
  "jan_30_date = \<lparr>year = 2020, month = 1, day = 30\<rparr>"

lemma sample_daily_file:
  "priv_load_ohlcv_file overlapping_archives (btcusdt ONE_DAY) jan_30_date DAILY
     = Inr (Some sample_daily)"
  by (simp add: eval_defs overlapping_archives_def daily_path_def monthly_path_def candle_def
      sample_daily_def jan_30_date_def)

theorem priv_load_ohlcv_file_decodes_witness:
  "priv_load_ohlcv_file overlapping_archives (btcusdt ONE_DAY) jan_30_date DAILY
     = Inr (Some sample_daily)
   \<and> (\<exists>path raw_data u.
           priv_find_file_path overlapping_archives (btcusdt ONE_DAY) jan_30_date DAILY = Some path
           \<and> overlapping_archives path = Some (Csv raw_data)
           \<and> length sample_daily = length raw_data
           \<and> (\<forall>k<length raw_data.
                 date_time (sample_daily ! k) = from_epoch date_time u (raw_data ! k)
                 \<and> close_date_time (sample_daily ! k) = from_epoch close_date_time u (raw_data ! k))
           \<and> (instrument_type (btcusdt ONE_DAY) = SPOT \<and> (2025, 1, 1) \<le> date_tuple jan_30_date \<longrightarrow> u = Us)
           \<and> (instrument_type (btcusdt ONE_DAY) = SPOT \<and> date_tuple jan_30_date < (2025, 1, 1) \<longrightarrow> u = Ms)
           \<and> (instrument_type (btcusdt ONE_DAY) \<noteq> SPOT \<longrightarrow> u = Ms))"
  using priv_load_ohlcv_file_decodes [OF sample_daily_file] sample_daily_file
  by (intro conjI)


section \<open>Width of the file-date key\<close>

lemma str_nat_length:
  assumes "n < 10000"
  shows "length (str_nat n) = (if n < 10 then 1 else if n < 100 then 2 else if n < 1000 then 3 else 4)"
proof -
  have one: "length (str_nat k) = 1" if "k < 10" for k
    using that by (subst str_nat.simps) simp
  have two: "length (str_nat k) = 2" if "10 \<le> k" "k < 100" for k
  proof -
    from that have "k div 10 < 10" by simp
    from one [OF this] that show ?thesis by (subst str_nat.simps) simp
  qed
  have three: "length (str_nat k) = 3" if "100 \<le> k" "k < 1000" for k
  proof -
    from that have "10 \<le> k div 10" "k div 10 < 100" by simp_all
    from two [OF this] that show ?thesis by (subst str_nat.simps) simp
  qed
  have four: "length (str_nat k) = 4" if "1000 \<le> k" "k < 10000" for k
  proof -
    from that have "100 \<le> k div 10" "k div 10 < 1000" by simp_all
    from three [OF this] that show ?thesis by (subst str_nat.simps) simp
  qed
  show ?thesis using assms one [of n] two [of n] three [of n] four [of n] by auto
qed

lemma format_02d_length:
  "n < 10000 \<Longrightarrow> length (format_02d n) = (if n < 100 then 2 else if n < 1000 then 3 else 4)"
  by (simp add: format_02d_def str_nat_length del: str_nat.simps)

text \<open>
  The key of a valid date has two-digit month and day; its year has four digits from
  the year 1000 on, and as many digits as the year has, at least two, before.
\<close>

lemma file_date_length:
  assumes "valid_date d"
  shows "length (file_date DAILY d)
           = (if year d < 100 then 8 else if year d < 1000 then 9 else 10)"
    and "length (file_date MONTHLY d)
           = (if year d < 100 then 5 else if year d < 1000 then 6 else 7)"
proof -
  have y: "year d < 10000" and m: "month d < 100" and dd: "day d < 100"
    using assms days_in_month_pos(2) [of "year d" "month d"]
    by (simp_all add: valid_date_def MAXYEAR_def)
  show "length (file_date DAILY d)
           = (if year d < 100 then 8 else if year d < 1000 then 9 else 10)"
    using y m dd by (simp add: format_02d_length)
  show "length (file_date MONTHLY d)
           = (if year d < 100 then 5 else if year d < 1000 then 6 else 7)"
    using y m by (simp add: format_02d_length)
qed

text \<open>
  C8. The year is formatted with \<^verbatim>\<open>02d\<close>, a minimum width of two, like the month
  and the day: the key of a date in the year 999 has a three-digit year.
\<close>

theorem file_date_year_999:
  "file_date DAILY \<lparr>year = 999, month = 1, day = 1\<rparr> = ''999-01-01''"
  by code_simp

end
